theory Spec2Isabelle
  imports Main
begin

section \<open>JavaScript values read from API payloads\<close>

text \<open>
  The fields that \<^verbatim>\<open>parser.js\<close> reads from a JSON payload are scalars. \<open>JNum\<close> carries the
  whole numbers of magnitude below \<open>2^53\<close>, which \<^verbatim>\<open>JSON.parse\<close> reads exactly and \<^verbatim>\<open>String\<close>
  prints as their plain decimal digits. A number of larger magnitude (it is rounded when it
  is parsed and printed with its shortest round-trip digits), a fractional number, and an
  array or an object in a scalar position are outside the model; none of the results below
  depends on the digits of a number. \<open>JUndefined\<close> is a missing property.
\<close>

datatype jsval = JUndefined | JNull | JBool bool | JNum int | JStr string

text \<open>JavaScript truthiness (\<^verbatim>\<open>!!v\<close>).\<close>

fun truthy :: "jsval \<Rightarrow> bool" where
  "truthy JUndefined = False"
| "truthy JNull = False"
| "truthy (JBool b) = b"
| "truthy (JNum n) = (n \<noteq> 0)"
| "truthy (JStr s) = (s \<noteq> [])"

text \<open>\<^verbatim>\<open>a || b\<close> on values.\<close>

definition js_or :: "jsval \<Rightarrow> jsval \<Rightarrow> jsval" where
  "js_or a b = (if truthy a then a else b)"

function string_of_nat :: "nat \<Rightarrow> string" where
  "string_of_nat n =
     (if n < 10 then [''0123456789'' ! n]
      else string_of_nat (n div 10) @ [''0123456789'' ! (n mod 10)])"
  by pat_completeness auto
termination
  by (relation "measure id") auto

declare string_of_nat.simps [simp del]

definition string_of_int :: "int \<Rightarrow> string" where
  "string_of_int i = (if i < 0 then CHR ''-'' # string_of_nat (nat (- i)) else string_of_nat (nat i))"

text \<open>\<^verbatim>\<open>String(v)\<close>, also what a template literal does to an interpolated value.\<close>

fun js_String :: "jsval \<Rightarrow> string" where
  "js_String JUndefined = ''undefined''"
| "js_String JNull = ''null''"
| "js_String (JBool b) = (if b then ''true'' else ''false'')"
| "js_String (JNum n) = string_of_int n"
| "js_String (JStr s) = s"

text \<open>
  How the \<^verbatim>\<open>pg\<close> driver binds a scalar query parameter to a nullable text column:
  \<^verbatim>\<open>null\<close> and \<^verbatim>\<open>undefined\<close> become SQL NULL, everything else its string form.
\<close>

fun pg_text :: "jsval \<Rightarrow> string option" where
  "pg_text JUndefined = None"
| "pg_text JNull = None"
| "pg_text v = Some (js_String v)"

text \<open>A nullable text column read back into JavaScript.\<close>

fun js_of_text :: "string option \<Rightarrow> jsval" where
  "js_of_text None = JNull"
| "js_of_text (Some s) = JStr s"

section \<open>Payload shapes\<close>

text \<open>
  The properties the code reads from the objects of a response. A property that is absent
  is \<open>JUndefined\<close>. \<open>t_author\<close> is \<open>None\<close> when \<^verbatim>\<open>t.author\<close> is null or undefined.
\<close>

record raw_author =
  a_id :: jsval
  a_userName :: jsval
  a_username :: jsval

record raw_tweet =
  t_id :: jsval
  t_url :: jsval
  t_text :: jsval
  t_createdAt :: jsval
  t_author :: "raw_author option"
  t_viewCount :: jsval
  t_likeCount :: jsval
  t_retweetCount :: jsval
  t_replyCount :: jsval
  t_quoteCount :: jsval
  t_bookmarkCount :: jsval

record raw_user =
  u_id :: jsval
  u_userName :: jsval
  u_name :: jsval
  u_followers :: jsval
  u_following :: jsval
  u_profilePicture :: jsval

text \<open>
  The parsed body \<^verbatim>\<open>data\<close> of a response, by the properties the code reads. \<open>d_tweets\<close> and
  \<open>d_members\<close> are \<open>Some\<close> exactly when \<^verbatim>\<open>Array.isArray\<close> holds of the property (the elements
  are objects); \<open>d_user\<close>, \<open>d_data\<close> and \<open>d_result\<close> are \<open>Some\<close> exactly when the property is
  truthy. A body that is empty or is not JSON parses to an object with none of these
  properties (\<open>no_data\<close>).
\<close>

record api_data =
  d_status :: jsval
  d_message :: jsval
  d_msg :: jsval
  d_tweets :: "raw_tweet list option"
  d_members :: "raw_user list option"
  d_has_next_page :: jsval
  d_next_cursor :: jsval
  d_user :: "raw_user option"
  d_data :: "raw_user option"
  d_result :: "raw_user option"

definition no_data :: api_data where
  "no_data = \<lparr> d_status = JUndefined, d_message = JUndefined, d_msg = JUndefined,
     d_tweets = None, d_members = None, d_has_next_page = JUndefined,
     d_next_cursor = JUndefined, d_user = None, d_data = None, d_result = None \<rparr>"


section \<open>Environment and configuration\<close>

text \<open>
  Everything the program receives from outside, as functions of the call number so that a
  run is deterministic: \<open>date_time\<close> is \<^verbatim>\<open>new Date(s).getTime()\<close> of the JavaScript engine
  (\<open>None\<close> for NaN); \<open>http n path params\<close> is the outcome of the \<open>n\<close>-th \<^verbatim>\<open>fetch\<close>, which takes
  \<open>http_time n\<close> milliseconds and starts \<open>fetch_delay n\<close> milliseconds after the step before
  it (the pacing gate); the timer of the \<open>n\<close>-th \<^verbatim>\<open>sleep\<close> ends a millisecond early on the
  clock that \<^verbatim>\<open>Date.now()\<close> reads when \<open>timer_early n\<close> holds (the timer and \<^verbatim>\<open>Date.now()\<close>
  round the same instants differently) and overshoots by \<open>sleep_extra n\<close> milliseconds;
  the \<open>n\<close>-th database query takes \<open>db_time n\<close> milliseconds and is rejected
  with the message \<open>db_error n\<close> when that is \<open>Some\<close>; \<open>select_result n\<close> is the column of
  rows that the \<open>n\<close>-th query returns when it is one of the two list selections (their
  result depends on the database clock and collation).
\<close>

datatype http_result = NetworkError string | Response nat api_data

record env =
  date_time :: "jsval \<Rightarrow> int option"
  http :: "nat \<Rightarrow> string \<Rightarrow> (string \<times> string) list \<Rightarrow> http_result"
  http_time :: "nat \<Rightarrow> nat"
  fetch_delay :: "nat \<Rightarrow> nat"
  timer_early :: "nat \<Rightarrow> bool"
  sleep_extra :: "nat \<Rightarrow> nat"
  db_error :: "nat \<Rightarrow> string option"
  db_time :: "nat \<Rightarrow> nat"
  select_result :: "nat \<Rightarrow> string list"

text \<open>
  The constants read from the process environment. A variable that is unset is the empty
  string. The numeric ones are whole numbers; \<open>BASE_PATH\<close> is the path component of
  \<^verbatim>\<open>BASE_URL\<close> without its trailing slash (empty for the default URL), so that
  \<^verbatim>\<open>url.pathname\<close> is \<open>BASE_PATH @ path\<close>.
\<close>

record config =
  BASE_PATH :: string
  API_KEY :: string
  COMMUNITY_ID :: string
  MIN_REQUEST_INTERVAL_MS :: int
  TOP_PAGES :: int
  BATCH_TWEET_IDS :: nat
  BACKFILL_CUTOFF_DAYS :: int
  BACKFILL_PAGES_PER_RUN :: int

section \<open>Normalizer\<close>

text \<open>
  A normalized tweet. \<open>tw_created_at\<close> stands for the ISO string that \<^verbatim>\<open>parseCreatedAt\<close>
  returns: it is kept as the instant (milliseconds since the epoch) that the string
  denotes, since \<^verbatim>\<open>new Date(d.toISOString()).getTime()\<close> is \<^verbatim>\<open>d.getTime()\<close> for every valid
  date \<open>d\<close>. \<open>None\<close> is \<^verbatim>\<open>null\<close>.
\<close>

record tweet =
  tw_tweet_id :: string
  tw_url :: jsval
  tw_text :: jsval
  tw_created_at :: "int option"
  tw_author_user_id :: jsval
  tw_author_username :: jsval

definition parseCreatedAt :: "env \<Rightarrow> jsval \<Rightarrow> int option" where
  "parseCreatedAt env s =
     (if \<not> truthy s then None
      else case date_time env s of None \<Rightarrow> None | Some ms \<Rightarrow> Some ms)"

definition author_prop :: "(raw_author \<Rightarrow> jsval) \<Rightarrow> raw_tweet \<Rightarrow> jsval" where
  "author_prop f t = (case t_author t of None \<Rightarrow> JUndefined | Some a \<Rightarrow> f a)"

definition normalizeTweet :: "env \<Rightarrow> raw_tweet \<Rightarrow> tweet" where
  "normalizeTweet env t =
     \<lparr> tw_tweet_id = js_String (t_id t),
       tw_url = js_or (t_url t) JNull,
       tw_text = js_or (t_text t) (JStr []),
       tw_created_at = parseCreatedAt env (t_createdAt t),
       tw_author_user_id =
         (if truthy (author_prop a_id t) then JStr (js_String (author_prop a_id t)) else JNull),
       tw_author_username =
         js_or (author_prop a_userName t) (js_or (author_prop a_username t) JNull) \<rparr>"

section \<open>Stored rows and SQL statements\<close>

text \<open>
  The tables as finite maps from their conflict keys. A text column is \<open>string option\<close>
  (\<open>None\<close> is NULL); \<open>r_created_at\<close> is a timestamp, kept as an instant. The numeric
  columns of users and metrics hold the argument that the code passes to \<^verbatim>\<open>Number\<close>.
\<close>

record state_row =
  backfill_cursor :: "string option"
  last_seen_tweet_id :: "string option"

record tweet_row =
  r_created_at :: "int option"
  r_author_user_id :: "string option"
  r_author_username :: "string option"
  r_url :: "string option"
  r_text :: "string option"

record user_row =
  ur_username :: "string option"
  ur_name :: "string option"
  ur_followers :: jsval
  ur_following :: jsval
  ur_profile_picture :: "string option"

record db =
  ingest_state :: "string \<rightharpoonup> state_row"
  community_tweets :: "string \<times> string \<rightharpoonup> tweet_row"
  tweet_metrics_latest :: "string \<rightharpoonup> jsval list"
  users :: "string \<rightharpoonup> user_row"
  community_members :: "string \<times> string \<rightharpoonup> string option"

text \<open>The statements \<^verbatim>\<open>parser.js\<close> sends, each with its bound parameters.\<close>

datatype sql =
    Select1
  | InsertStateRow string
  | SelectState string
  | UpdateBackfillCursor string "string option"
  | UpdateLastSeenTweetId string "string option"
  | UpsertCommunityTweet string string tweet_row
  | UpsertMetrics string "jsval list"
  | UpsertUser string user_row
  | UpsertMember string string "string option"
  | SelectStaleTweets string
  | SelectActiveUsers string

text \<open>\<^verbatim>\<open>COALESCE(EXCLUDED.c, community_tweets.c)\<close>.\<close>

fun coalesce :: "'a option \<Rightarrow> 'a option \<Rightarrow> 'a option" where
  "coalesce (Some v) old = Some v"
| "coalesce None old = old"

definition coalesce_row :: "tweet_row \<Rightarrow> tweet_row \<Rightarrow> tweet_row" where
  "coalesce_row excluded old =
     \<lparr> r_created_at = coalesce (r_created_at excluded) (r_created_at old),
       r_author_user_id = coalesce (r_author_user_id excluded) (r_author_user_id old),
       r_author_username = coalesce (r_author_username excluded) (r_author_username old),
       r_url = coalesce (r_url excluded) (r_url old),
       r_text = coalesce (r_text excluded) (r_text old) \<rparr>"

text \<open>What a statement that is accepted does to the tables.\<close>

fun sql_effect :: "sql \<Rightarrow> db \<Rightarrow> db" where
  "sql_effect Select1 d = d"
| "sql_effect (InsertStateRow c) d =
     (case ingest_state d c of
        Some row \<Rightarrow> d
      | None \<Rightarrow> d\<lparr>ingest_state := (ingest_state d)
                  (c \<mapsto> \<lparr>backfill_cursor = None, last_seen_tweet_id = None\<rparr>)\<rparr>)"
| "sql_effect (SelectState c) d = d"
| "sql_effect (UpdateBackfillCursor c cur) d =
     (case ingest_state d c of
        None \<Rightarrow> d
      | Some row \<Rightarrow> d\<lparr>ingest_state := (ingest_state d)(c \<mapsto> row\<lparr>backfill_cursor := cur\<rparr>)\<rparr>)"
| "sql_effect (UpdateLastSeenTweetId c i) d =
     (case ingest_state d c of
        None \<Rightarrow> d
      | Some row \<Rightarrow> d\<lparr>ingest_state := (ingest_state d)(c \<mapsto> row\<lparr>last_seen_tweet_id := i\<rparr>)\<rparr>)"
| "sql_effect (UpsertCommunityTweet c i excluded) d =
     (case community_tweets d (c, i) of
        None \<Rightarrow> d\<lparr>community_tweets := (community_tweets d)((c, i) \<mapsto> excluded)\<rparr>
      | Some old \<Rightarrow>
          d\<lparr>community_tweets := (community_tweets d)((c, i) \<mapsto> coalesce_row excluded old)\<rparr>)"
| "sql_effect (UpsertMetrics i counters) d =
     d\<lparr>tweet_metrics_latest := (tweet_metrics_latest d)(i \<mapsto> counters)\<rparr>"
| "sql_effect (UpsertUser i row) d = d\<lparr>users := (users d)(i \<mapsto> row)\<rparr>"
| "sql_effect (UpsertMember c i name) d =
     d\<lparr>community_members := (community_members d)((c, i) \<mapsto> name)\<rparr>"
| "sql_effect (SelectStaleTweets c) d = d"
| "sql_effect (SelectActiveUsers c) d = d"

section \<open>The running process\<close>

text \<open>
  A JavaScript \<^verbatim>\<open>Error\<close> that is thrown (it can be caught), or the end of the process by
  \<^verbatim>\<open>die\<close> (\<^verbatim>\<open>process.exit(1)\<close>, which no handler intercepts).
\<close>

datatype error = Thrown string | Exit string

text \<open>
  The effects of a run in the order they happen. \<open>EvPace\<close> marks an entry into \<^verbatim>\<open>_pace\<close>,
  \<open>EvReturn\<close> the value \<^verbatim>\<open>get\<close> returns, \<open>EvThrow\<close> an error that \<^verbatim>\<open>get\<close> or a driver raises,
  \<open>EvQuery\<close> a statement that took effect, \<open>EvRejected\<close> a statement that the database
  rejected with a message, and \<open>EvLog\<close> and \<open>EvWarn\<close> the two lines that \<^verbatim>\<open>refreshUsers\<close> prints
  per handle (\<^verbatim>\<open>console.log\<close> and \<^verbatim>\<open>console.warn\<close>); the other console output is not
  recorded.
\<close>

datatype event =
    EvPace
  | EvSleep int
  | EvFetch string "(string \<times> string) list"
  | EvReturn api_data
  | EvThrow string
  | EvQuery sql
  | EvRejected sql string
  | EvLog string
  | EvWarn string

text \<open>
  \<open>clock\<close> is what \<^verbatim>\<open>Date.now()\<close> returns, \<open>lastTs\<close> the field \<^verbatim>\<open>_lastTs\<close> of the one client
  \<^verbatim>\<open>api\<close>; \<open>nfetch\<close>, \<open>nsleep\<close> and \<open>nquery\<close> count the calls made so far; \<open>trace\<close> and
  \<open>fetch_starts\<close> (the clock at the start of every \<^verbatim>\<open>fetch\<close>) only record.
\<close>

record world =
  clock :: int
  lastTs :: int
  nfetch :: nat
  nsleep :: nat
  nquery :: nat
  store :: db
  trace :: "event list"
  fetch_starts :: "int list"

type_synonym 'a result = "(error + 'a) \<times> world"

definition emit :: "event \<Rightarrow> world \<Rightarrow> world" where
  "emit e w = w\<lparr>trace := trace w @ [e]\<rparr>"

definition die :: "string \<Rightarrow> world \<Rightarrow> 'a result" where
  "die msg w = (Inl (Exit msg), w)"

text \<open>
  \<^verbatim>\<open>sleep(ms)\<close>, a \<^verbatim>\<open>setTimeout\<close>: on the clock that \<^verbatim>\<open>Date.now()\<close> reads the wait lasts the
  delay asked for, less one millisecond when the timer ends early, plus the overshoot. The
  delays of the program are the remainder of the minimum interval and the backoff; a delay
  of \<open>2^31\<close> milliseconds or more, which the timer replaces by one millisecond, and a step
  of the system clock during a wait are outside the model.
\<close>

definition sleep :: "env \<Rightarrow> int \<Rightarrow> world \<Rightarrow> world" where
  "sleep env ms w =
     (emit (EvSleep ms) w)
       \<lparr>clock := clock w + max (ms - (if timer_early env (nsleep w) then 1 else 0)) 0
                 + int (sleep_extra env (nsleep w)),
        nsleep := nsleep w + 1\<rparr>"

text \<open>\<^verbatim>\<open>pool.query\<close>: the statement is sent; it is rejected, or it takes effect.\<close>

definition q :: "env \<Rightarrow> sql \<Rightarrow> world \<Rightarrow> unit result" where
  "q env stmt w =
     (let n = nquery w;
          w1 = w\<lparr>clock := clock w + int (db_time env n), nquery := n + 1\<rparr>
      in case db_error env n of
           Some msg \<Rightarrow> (Inl (Thrown msg), emit (EvRejected stmt msg) w1)
         | None \<Rightarrow> (Inr (), emit (EvQuery stmt) (w1\<lparr>store := sql_effect stmt (store w1)\<rparr>)))"

section \<open>Paced client\<close>

definition pace :: "env \<Rightarrow> config \<Rightarrow> world \<Rightarrow> world" where
  "pace env cfg w =
     (let w0 = emit EvPace w;
          now = clock w0;
          wait = lastTs w0 + MIN_REQUEST_INTERVAL_MS cfg - now;
          w1 = (if wait > 0 then sleep env wait w0 else w0)
      in w1\<lparr>lastTs := clock w1\<rparr>)"

text \<open>
  \<^verbatim>\<open>fetch(url, ...)\<close> as \<^verbatim>\<open>get\<close> reaches it after the gate: the request starts once the URL is
  built, \<open>fetch_delay\<close> milliseconds after the gate, and the response is there \<open>http_time\<close>
  milliseconds later.
\<close>

definition fetch :: "env \<Rightarrow> string \<Rightarrow> (string \<times> string) list \<Rightarrow> world \<Rightarrow> http_result \<times> world" where
  "fetch env path ps w =
     (http env (nfetch w) path ps,
      (emit (EvFetch path ps) w)
        \<lparr>clock := clock w + int (fetch_delay env (nfetch w)) + int (http_time env (nfetch w)),
         nfetch := nfetch w + 1,
         fetch_starts := fetch_starts w @ [clock w + int (fetch_delay env (nfetch w))]\<rparr>)"

text \<open>\<^verbatim>\<open>res.ok\<close>.\<close>

definition ok :: "nat \<Rightarrow> bool" where
  "ok status = (200 \<le> status \<and> status \<le> 299)"

definition pathname :: "config \<Rightarrow> string \<Rightarrow> string" where
  "pathname cfg path = BASE_PATH cfg @ path"

definition throw :: "string \<Rightarrow> world \<Rightarrow> 'a result" where
  "throw msg w = (Inl (Thrown msg), emit (EvThrow msg) w)"

text \<open>
  The \<^verbatim>\<open>while (true)\<close> of \<^verbatim>\<open>get\<close>; \<open>attempt\<close> is the counter before its increment. The
  \<^verbatim>\<open>console.warn\<close> calls of the 429 branch have no other effect and are left out.
\<close>

function get_loop ::
  "env \<Rightarrow> config \<Rightarrow> string \<Rightarrow> (string \<times> string) list \<Rightarrow> nat \<Rightarrow> nat \<Rightarrow> world \<Rightarrow> api_data result"
where
  "get_loop env cfg path ps retries attempt0 w =
     (let attempt = attempt0 + 1 in
      case fetch env path ps w of
        (NetworkError msg, w1) \<Rightarrow> throw msg w1
      | (Response status data, w1) \<Rightarrow>
          if status = 429 \<and> attempt \<le> retries then
            (let waitMs = MIN_REQUEST_INTERVAL_MS cfg + int attempt * 1000
             in get_loop env cfg path ps retries attempt (pace env cfg (sleep env waitMs w1)))
          else if \<not> ok status then
            throw (js_String (js_or (d_message data) (js_or (d_msg data)
                     (JStr (''HTTP '' @ string_of_nat status))))
                   @ '' @ '' @ pathname cfg path) w1
          else if truthy (d_status data) \<and> d_status data \<noteq> JStr ''success'' then
            throw (js_String (js_or (d_msg data) (JStr ''API status error''))
                   @ '' @ '' @ pathname cfg path) w1
          else (Inr data, emit (EvReturn data) w1))"
  by pat_completeness auto
termination
  by (relation "measure (\<lambda>(env, cfg, path, ps, retries, attempt0, w). retries - attempt0)") auto

declare get_loop.simps [simp del]

text \<open>The query string: a parameter that is undefined, null or empty is skipped.\<close>

definition query_params :: "(string \<times> jsval) list \<Rightarrow> (string \<times> string) list" where
  "query_params params =
     map (\<lambda>(k, v). (k, js_String v))
       (filter (\<lambda>(k, v). v \<noteq> JUndefined \<and> v \<noteq> JNull \<and> v \<noteq> JStr []) params)"

definition get :: "env \<Rightarrow> config \<Rightarrow> string \<Rightarrow> (string \<times> jsval) list \<Rightarrow> nat \<Rightarrow> world \<Rightarrow> api_data result" where
  "get env cfg path params retries w =
     (if API_KEY cfg = [] then die ''No TWITTERAPI_IO_KEY'' w
      else get_loop env cfg path (query_params params) retries 0 (pace env cfg w))"

definition getCommunityTweets :: "env \<Rightarrow> config \<Rightarrow> string \<Rightarrow> jsval \<Rightarrow> world \<Rightarrow> api_data result" where
  "getCommunityTweets env cfg community_id cursor =
     get env cfg ''/twitter/community/tweets''
       [(''community_id'', JStr community_id), (''cursor'', cursor)] 6"





section \<open>Sync state store and upserts\<close>

definition ensureStateRow :: "env \<Rightarrow> string \<Rightarrow> world \<Rightarrow> unit result" where
  "ensureStateRow env communityId = q env (InsertStateRow communityId)"

text \<open>\<open>getState\<close> returns \<^verbatim>\<open>r.rows[0]\<close>, which is \<open>None\<close> (undefined) when no row matches.\<close>

definition getState :: "env \<Rightarrow> string \<Rightarrow> world \<Rightarrow> state_row option result" where
  "getState env communityId w =
     (case ensureStateRow env communityId w of
        (Inl e, w1) \<Rightarrow> (Inl e, w1)
      | (Inr u, w1) \<Rightarrow>
          (case q env (SelectState communityId) w1 of
             (Inl e, w2) \<Rightarrow> (Inl e, w2)
           | (Inr u, w2) \<Rightarrow> (Inr (ingest_state (store w2) communityId), w2)))"

definition setBackfillCursor :: "env \<Rightarrow> string \<Rightarrow> jsval \<Rightarrow> world \<Rightarrow> unit result" where
  "setBackfillCursor env communityId cursor =
     q env (UpdateBackfillCursor communityId (pg_text cursor))"

definition setLastSeenTweetId :: "env \<Rightarrow> string \<Rightarrow> jsval \<Rightarrow> world \<Rightarrow> unit result" where
  "setLastSeenTweetId env communityId tweetId =
     q env (UpdateLastSeenTweetId communityId (pg_text tweetId))"

definition tweet_params :: "tweet \<Rightarrow> tweet_row" where
  "tweet_params tw =
     \<lparr> r_created_at = tw_created_at tw,
       r_author_user_id = pg_text (tw_author_user_id tw),
       r_author_username = pg_text (tw_author_username tw),
       r_url = pg_text (tw_url tw),
       r_text = pg_text (tw_text tw) \<rparr>"

definition upsertCommunityTweet :: "env \<Rightarrow> string \<Rightarrow> tweet \<Rightarrow> world \<Rightarrow> unit result" where
  "upsertCommunityTweet env communityId tw =
     q env (UpsertCommunityTweet communityId (tw_tweet_id tw) (tweet_params tw))"


definition upsertUser :: "env \<Rightarrow> raw_user \<Rightarrow> world \<Rightarrow> unit result" where
  "upsertUser env u w =
     (let user_id = (if truthy (u_id u) then JStr (js_String (u_id u)) else JNull);
          username = js_or (u_userName u) JNull;
          name = js_or (u_name u) JNull;
          followers = js_or (u_followers u) (JNum 0);
          following = js_or (u_following u) (JNum 0);
          profile_picture = js_or (u_profilePicture u) JNull
      in if \<not> truthy user_id \<or> \<not> truthy username then (Inr (), w)
         else q env (UpsertUser (js_String user_id)
                \<lparr> ur_username = pg_text username, ur_name = pg_text name,
                  ur_followers = followers, ur_following = following,
                  ur_profile_picture = pg_text profile_picture \<rparr>) w)"

section \<open>Backfill driver\<close>

text \<open>
  The cutoff test of the inner loop: \<^verbatim>\<open>cutoffTs && tw.created_at\<close>, then \<^verbatim>\<open>ts < cutoffTs\<close>
  (\<open>ts\<close> is never NaN, being read back from an ISO string).
\<close>

definition past_cutoff :: "int option \<Rightarrow> tweet \<Rightarrow> bool" where
  "past_cutoff cutoffTs tw =
     (case cutoffTs of
        None \<Rightarrow> False
      | Some c \<Rightarrow> c \<noteq> 0 \<and> (case tw_created_at tw of None \<Rightarrow> False | Some ts \<Rightarrow> ts < c))"

text \<open>
  The \<^verbatim>\<open>for (const t of tweets)\<close> of \<^verbatim>\<open>backfill\<close>; the result is \<^verbatim>\<open>reachedCutoff\<close>. The
  counters \<^verbatim>\<open>insertedThisPage\<close> and \<^verbatim>\<open>insertedTotal\<close> only feed the console and are left out.
\<close>

fun backfill_page :: "env \<Rightarrow> string \<Rightarrow> int option \<Rightarrow> raw_tweet list \<Rightarrow> world \<Rightarrow> bool result" where
  "backfill_page env communityId cutoffTs [] w = (Inr False, w)"
| "backfill_page env communityId cutoffTs (t # ts) w =
     (let tw = normalizeTweet env t in
      if past_cutoff cutoffTs tw then (Inr True, w)
      else case upsertCommunityTweet env communityId tw w of
             (Inl e, w1) \<Rightarrow> (Inl e, w1)
           | (Inr u, w1) \<Rightarrow> backfill_page env communityId cutoffTs ts w1)"

text \<open>\<^verbatim>\<open>Array.isArray(data?.tweets) ? data.tweets : []\<close>.\<close>

definition tweets_of :: "api_data \<Rightarrow> raw_tweet list" where
  "tweets_of data = (case d_tweets data of Some ts \<Rightarrow> ts | None \<Rightarrow> [])"

text \<open>\<^verbatim>\<open>!data?.has_next_page || !data?.next_cursor\<close>.\<close>

definition no_next_page :: "api_data \<Rightarrow> bool" where
  "no_next_page data = (\<not> truthy (d_has_next_page data) \<or> \<not> truthy (d_next_cursor data))"

text \<open>The \<^verbatim>\<open>for (let page = 1; page <= BACKFILL_PAGES_PER_RUN; page++)\<close> from \<open>page\<close> on.\<close>

function backfill_loop ::
  "env \<Rightarrow> config \<Rightarrow> string \<Rightarrow> int option \<Rightarrow> nat \<Rightarrow> jsval \<Rightarrow> world \<Rightarrow> unit result"
where
  "backfill_loop env cfg communityId cutoffTs page cursor w =
     (if \<not> int page \<le> BACKFILL_PAGES_PER_RUN cfg then (Inr (), w)
      else case getCommunityTweets env cfg communityId cursor w of
        (Inl e, w1) \<Rightarrow> (Inl e, w1)
      | (Inr data, w1) \<Rightarrow>
          (case backfill_page env communityId cutoffTs (tweets_of data) w1 of
             (Inl e, w2) \<Rightarrow> (Inl e, w2)
           | (Inr reachedCutoff, w2) \<Rightarrow>
               if reachedCutoff then setBackfillCursor env communityId JNull w2
               else if no_next_page data then setBackfillCursor env communityId JNull w2
               else (case setBackfillCursor env communityId (d_next_cursor data) w2 of
                       (Inl e, w3) \<Rightarrow> (Inl e, w3)
                     | (Inr u, w3) \<Rightarrow>
                         backfill_loop env cfg communityId cutoffTs (page + 1)
                           (d_next_cursor data) w3)))"
  by pat_completeness auto
termination
  by (relation "measure (\<lambda>(env, cfg, communityId, cutoffTs, page, cursor, w).
        nat (BACKFILL_PAGES_PER_RUN cfg + 1 - int page))") auto

declare backfill_loop.simps [simp del]

text \<open>Reading a property of \<^verbatim>\<open>undefined\<close> raises a TypeError.\<close>

definition undefined_state :: string where
  "undefined_state = ''Cannot read properties of undefined''"

definition cutoff_of :: "config \<Rightarrow> int \<Rightarrow> int option" where
  "cutoff_of cfg now =
     (if BACKFILL_CUTOFF_DAYS cfg > 0
      then Some (now - BACKFILL_CUTOFF_DAYS cfg * 24 * 3600 * 1000) else None)"

definition backfill :: "env \<Rightarrow> config \<Rightarrow> world \<Rightarrow> unit result" where
  "backfill env cfg w =
     (let communityId = COMMUNITY_ID cfg in
      if communityId = [] then die ''No COMMUNITY_ID'' w
      else case getState env communityId w of
        (Inl e, w1) \<Rightarrow> (Inl e, w1)
      | (Inr None, w1) \<Rightarrow> throw undefined_state w1
      | (Inr (Some state), w1) \<Rightarrow>
          (let cursor = js_or (js_of_text (backfill_cursor state)) JNull;
               cutoffTs = cutoff_of cfg (clock w1)
           in backfill_loop env cfg communityId cutoffTs 1 cursor w1))"

section \<open>Incremental driver\<close>

text \<open>The \<^verbatim>\<open>for (const t of tweets)\<close> of \<^verbatim>\<open>ingestNew\<close>; the result is \<^verbatim>\<open>stopped\<close>.\<close>

fun ingest_page :: "env \<Rightarrow> string \<Rightarrow> jsval \<Rightarrow> raw_tweet list \<Rightarrow> world \<Rightarrow> bool result" where
  "ingest_page env communityId stopId [] w = (Inr False, w)"
| "ingest_page env communityId stopId (t # ts) w =
     (let id = js_String (t_id t) in
      if truthy stopId \<and> JStr id = stopId then (Inr True, w)
      else case upsertCommunityTweet env communityId (normalizeTweet env t) w of
             (Inl e, w1) \<Rightarrow> (Inl e, w1)
           | (Inr u, w1) \<Rightarrow> ingest_page env communityId stopId ts w1)"

text \<open>\<^verbatim>\<open>tweets[0]?.id\<close>.\<close>

definition first_id :: "raw_tweet list \<Rightarrow> jsval" where
  "first_id tweets = (case tweets of [] \<Rightarrow> JUndefined | t # ts \<Rightarrow> t_id t)"

text \<open>
  The \<^verbatim>\<open>for (let page = 1; page <= TOP_PAGES; page++)\<close> from \<open>page\<close> on; the result is
  \<^verbatim>\<open>newLastSeen\<close> when the loop is left.
\<close>

function ingest_loop ::
  "env \<Rightarrow> config \<Rightarrow> string \<Rightarrow> jsval \<Rightarrow> nat \<Rightarrow> jsval \<Rightarrow> jsval \<Rightarrow> world \<Rightarrow> jsval result"
where
  "ingest_loop env cfg communityId stopId page cursor newLastSeen w =
     (if \<not> int page \<le> TOP_PAGES cfg then (Inr newLastSeen, w)
      else case getCommunityTweets env cfg communityId cursor w of
        (Inl e, w1) \<Rightarrow> (Inl e, w1)
      | (Inr data, w1) \<Rightarrow>
          (let tweets = tweets_of data;
               newLastSeen' =
                 (if page = 1 \<and> truthy (first_id tweets)
                  then JStr (js_String (first_id tweets)) else newLastSeen)
           in case ingest_page env communityId stopId tweets w1 of
                (Inl e, w2) \<Rightarrow> (Inl e, w2)
              | (Inr stopped, w2) \<Rightarrow>
                  if stopped then (Inr newLastSeen', w2)
                  else if no_next_page data then (Inr newLastSeen', w2)
                  else ingest_loop env cfg communityId stopId (page + 1)
                         (d_next_cursor data) newLastSeen' w2))"
  by pat_completeness auto
termination
  by (relation "measure (\<lambda>(env, cfg, communityId, stopId, page, cursor, newLastSeen, w).
        nat (TOP_PAGES cfg + 1 - int page))") auto

declare ingest_loop.simps [simp del]

definition ingestNew :: "env \<Rightarrow> config \<Rightarrow> world \<Rightarrow> unit result" where
  "ingestNew env cfg w =
     (let communityId = COMMUNITY_ID cfg in
      if communityId = [] then die ''No COMMUNITY_ID'' w
      else case getState env communityId w of
        (Inl e, w1) \<Rightarrow> (Inl e, w1)
      | (Inr None, w1) \<Rightarrow> throw undefined_state w1
      | (Inr (Some state), w1) \<Rightarrow>
          (let stopId = js_or (js_of_text (last_seen_tweet_id state)) JNull
           in case ingest_loop env cfg communityId stopId 1 JNull JNull w1 of
                (Inl e, w2) \<Rightarrow> (Inl e, w2)
              | (Inr newLastSeen, w2) \<Rightarrow>
                  if truthy newLastSeen then setLastSeenTweetId env communityId newLastSeen w2
                  else (Inr (), w2)))"

section \<open>Metrics refresh driver\<close>






section \<open>Users refresh driver\<close>





section \<open>Members sync driver\<close>





section \<open>Sample inputs\<close>

text \<open>An environment in which nothing fails and nothing takes time, and an empty start.\<close>

definition quiet_env :: env where
  "quiet_env = \<lparr> date_time = (\<lambda>v. None), http = (\<lambda>n path ps. Response 200 no_data),
     http_time = (\<lambda>n. 0), fetch_delay = (\<lambda>n. 0), timer_early = (\<lambda>n. False),
     sleep_extra = (\<lambda>n. 0), db_error = (\<lambda>n. None),
     db_time = (\<lambda>n. 0), select_result = (\<lambda>n. []) \<rparr>"

definition empty_db :: db where
  "empty_db = \<lparr> ingest_state = Map.empty, community_tweets = Map.empty,
     tweet_metrics_latest = Map.empty, users = Map.empty, community_members = Map.empty \<rparr>"

definition start_world :: world where
  "start_world = \<lparr> clock = 1000000, lastTs = 0, nfetch = 0, nsleep = 0, nquery = 0,
     store = empty_db, trace = [], fetch_starts = [] \<rparr>"

definition alice_row :: tweet_row where
  "alice_row = \<lparr> r_created_at = Some 5, r_author_user_id = Some ''7'',
     r_author_username = Some ''alice'', r_url = Some ''u'', r_text = Some ''hello'' \<rparr>"

definition alice_world :: world where
  "alice_world =
     start_world\<lparr>store := empty_db\<lparr>community_tweets := [(''c'', ''t1'') \<mapsto> alice_row]\<rparr>\<rparr>"

definition anon_tweet :: tweet where
  "anon_tweet = \<lparr> tw_tweet_id = ''t1'', tw_url = JNull, tw_text = JStr ''bye'',
     tw_created_at = None, tw_author_user_id = JNull, tw_author_username = JNull \<rparr>"

definition nameless_user :: raw_user where
  "nameless_user = \<lparr> u_id = JStr ''42'', u_userName = JUndefined, u_name = JStr ''Bob'',
     u_followers = JNum 3, u_following = JNum 4, u_profilePicture = JNull \<rparr>"

text \<open>The event of an accepted upsert of the normalized form of a raw item.\<close>

definition upsert_event :: "env \<Rightarrow> string \<Rightarrow> raw_tweet \<Rightarrow> event" where
  "upsert_event env communityId t =
     EvQuery (UpsertCommunityTweet communityId (tw_tweet_id (normalizeTweet env t))
       (tweet_params (normalizeTweet env t)))"

text \<open>
  Pages of sample items. \<open>number_dates\<close> reads a number as the instant it is (as
  \<^verbatim>\<open>new Date(n)\<close> does) and finds no date in anything else.
\<close>

definition sample_tweet :: "string \<Rightarrow> jsval \<Rightarrow> raw_tweet" where
  "sample_tweet i created = \<lparr> t_id = JStr i, t_url = JUndefined, t_text = JStr ''hi'',
     t_createdAt = created, t_author = None, t_viewCount = JUndefined,
     t_likeCount = JUndefined, t_retweetCount = JUndefined, t_replyCount = JUndefined,
     t_quoteCount = JUndefined, t_bookmarkCount = JUndefined \<rparr>"

definition page_data :: "raw_tweet list \<Rightarrow> jsval \<Rightarrow> api_data" where
  "page_data ts next = no_data\<lparr>d_status := JStr ''success'', d_tweets := Some ts,
     d_has_next_page := JBool (truthy next), d_next_cursor := next\<rparr>"

definition number_dates :: "jsval \<Rightarrow> int option" where
  "number_dates v = (case v of JNum n \<Rightarrow> Some n | _ \<Rightarrow> None)"

definition sample_cfg :: config where
  "sample_cfg = \<lparr> BASE_PATH = [], API_KEY = ''key'', COMMUNITY_ID = ''c'',
     MIN_REQUEST_INTERVAL_MS = 5200, TOP_PAGES = 3, BATCH_TWEET_IDS = 80,
     BACKFILL_CUTOFF_DAYS = 0, BACKFILL_PAGES_PER_RUN = 50 \<rparr>"

definition aged_page :: api_data where
  "aged_page = page_data [sample_tweet ''T100'' (JNum 900), sample_tweet ''T99'' (JNum 100),
     sample_tweet ''T98'' (JNum 950)] (JStr ''next'')"

definition aged_env :: env where
  "aged_env = quiet_env\<lparr>date_time := number_dates, http := (\<lambda>n path ps. Response 200 aged_page)\<rparr>"

definition tracked_world :: world where
  "tracked_world = start_world\<lparr>store := empty_db\<lparr>ingest_state :=
     [''c'' \<mapsto> \<lparr>backfill_cursor = Some ''old'', last_seen_tweet_id = Some ''T90''\<rparr>]\<rparr>\<rparr>"

section \<open>Reading a trace\<close>

text \<open>
  The events of the client itself, the payloads that \<^verbatim>\<open>get\<close> returned, and the accepted post
  upserts of a trace, each in order. \<open>get_events r evs\<close> says that \<open>evs\<close> is what one call of
  \<^verbatim>\<open>get\<close> with outcome \<open>r\<close> records: client events closed by the return or the throw.
\<close>

definition client_event :: "event \<Rightarrow> bool" where
  "client_event e = (case e of EvPace \<Rightarrow> True | EvSleep ms \<Rightarrow> True | EvFetch p ps \<Rightarrow> True | _ \<Rightarrow> False)"

definition returned :: "event list \<Rightarrow> api_data list" where
  "returned evs = concat (map (\<lambda>e. case e of EvReturn d \<Rightarrow> [d] | _ \<Rightarrow> []) evs)"

definition is_upsert :: "event \<Rightarrow> bool" where
  "is_upsert e = (case e of EvQuery (UpsertCommunityTweet c i r) \<Rightarrow> True | _ \<Rightarrow> False)"

definition upserts :: "event list \<Rightarrow> event list" where
  "upserts evs = filter is_upsert evs"

definition get_events :: "error + api_data \<Rightarrow> event list \<Rightarrow> bool" where
  "get_events r evs =
     (case r of
        Inr d \<Rightarrow> \<exists>pre. evs = pre @ [EvReturn d] \<and> list_all client_event pre
      | Inl (Thrown m) \<Rightarrow> \<exists>pre. evs = pre @ [EvThrow m] \<and> list_all client_event pre
      | Inl (Exit m) \<Rightarrow> evs = [])"

text \<open>
  The candidate watermark as the specification words it: the identifier of the first item
  of the first page requested from world \<open>w\<close>, when there is such a page and it has one.
\<close>

definition first_page_candidate :: "env \<Rightarrow> config \<Rightarrow> world \<Rightarrow> jsval" where
  "first_page_candidate env cfg w =
     (if \<not> 1 \<le> TOP_PAGES cfg then JNull
      else case getCommunityTweets env cfg (COMMUNITY_ID cfg) JNull w of
        (Inl e, w1) \<Rightarrow> JNull
      | (Inr data, w1) \<Rightarrow>
          (if truthy (first_id (tweets_of data))
           then JStr (js_String (first_id (tweets_of data))) else JNull))"

text \<open>An item whose identifier is not the previous watermark \<open>s\<close>.\<close>

definition no_match :: "string \<Rightarrow> raw_tweet \<Rightarrow> bool" where
  "no_match s t = (js_String (t_id t) \<noteq> s)"

text \<open>\<^verbatim>\<open>newLastSeen\<close> after the capture statement of an iteration.\<close>

definition captured :: "nat \<Rightarrow> raw_tweet list \<Rightarrow> jsval \<Rightarrow> jsval" where
  "captured page tweets newLastSeen =
     (if page = 1 \<and> truthy (first_id tweets)
      then JStr (js_String (first_id tweets)) else newLastSeen)"

text \<open>A feed whose every page holds the same three items and announces a next page.\<close>

definition feed_page :: api_data where
  "feed_page = page_data [sample_tweet ''T100'' (JNum 900), sample_tweet ''T97'' (JNum 890),
     sample_tweet ''T96'' (JNum 880)] (JStr ''c1'')"

definition feed_env :: env where
  "feed_env = quiet_env\<lparr>date_time := number_dates, http := (\<lambda>n path ps. Response 200 feed_page)\<rparr>"

definition one_page_cfg :: config where
  "one_page_cfg = sample_cfg\<lparr>TOP_PAGES := 1\<rparr>"

definition caught_up_world :: world where
  "caught_up_world = start_world\<lparr>store := empty_db\<lparr>ingest_state :=
     [''c'' \<mapsto> \<lparr>backfill_cursor = None, last_seen_tweet_id = Some ''T97''\<rparr>]\<rparr>\<rparr>"

text \<open>
  A feed of two pages: the service serves the second page for the cursor that the first
  page announces, and the first page for every other request.
\<close>

definition first_page :: api_data where
  "first_page = page_data [sample_tweet ''T100'' (JNum 900), sample_tweet ''T99'' (JNum 890)]
     (JStr ''c1'')"

definition second_page :: api_data where
  "second_page = page_data [sample_tweet ''T98'' (JNum 880), sample_tweet ''T97'' (JNum 870),
     sample_tweet ''T96'' (JNum 860)] (JStr ''c2'')"

definition paged_env :: env where
  "paged_env = quiet_env\<lparr>date_time := number_dates,
     http := (\<lambda>n path ps. Response 200
       (if map_of ps ''cursor'' = Some ''c1'' then second_page else first_page))\<rparr>"

section \<open>The cursor discipline of a backfill trace\<close>

text \<open>
  \<open>pending_step\<close> follows the items of the page returned last that have not been upserted
  yet: a returned page replaces them, an accepted upsert of the first of them removes it.
  \<open>disciplined allowed\<close> scans a trace and asks \<open>allowed pend cur\<close> at every accepted cursor
  update with value \<open>cur\<close> and pending items \<open>pend\<close>. \<open>strictly_after\<close> is the discipline as
  the specification words it (nothing is pending); \<open>after_or_cutoff\<close> also admits the update
  to NULL while the first pending item is past the cutoff.
\<close>

definition pending_step :: "env \<Rightarrow> string \<Rightarrow> raw_tweet list \<Rightarrow> event \<Rightarrow> raw_tweet list" where
  "pending_step env c pend e =
     (case e of
        EvReturn d \<Rightarrow> tweets_of d
      | _ \<Rightarrow> (case pend of [] \<Rightarrow> [] | t # ts \<Rightarrow> if e = upsert_event env c t then ts else pend))"

definition strictly_after :: "raw_tweet list \<Rightarrow> string option \<Rightarrow> bool" where
  "strictly_after pend cur = (pend = [])"

definition after_or_cutoff :: "env \<Rightarrow> int option \<Rightarrow> raw_tweet list \<Rightarrow> string option \<Rightarrow> bool" where
  "after_or_cutoff env cutoffTs pend cur =
     (pend = [] \<or> (cur = None \<and> past_cutoff cutoffTs (normalizeTweet env (hd pend))))"

fun disciplined ::
  "(raw_tweet list \<Rightarrow> string option \<Rightarrow> bool) \<Rightarrow> env \<Rightarrow> string \<Rightarrow> raw_tweet list \<Rightarrow> event list \<Rightarrow> bool"
where
  "disciplined allowed env c pend [] = True"
| "disciplined allowed env c pend (e # evs) =
     ((case e of EvQuery (UpdateBackfillCursor c' cur) \<Rightarrow> allowed pend cur | _ \<Rightarrow> True)
      \<and> disciplined allowed env c (pending_step env c pend e) evs)"

definition cursor_update :: "event \<Rightarrow> bool" where
  "cursor_update e = (case e of EvQuery (UpdateBackfillCursor c' cur) \<Rightarrow> True | _ \<Rightarrow> False)"

text \<open>A one-day cutoff, and a start whose clock puts the cutoff at instant 500.\<close>

definition cutoff_cfg :: config where
  "cutoff_cfg = sample_cfg\<lparr>BACKFILL_CUTOFF_DAYS := 1\<rparr>"

definition late_world :: world where
  "late_world = tracked_world\<lparr>clock := 86400500\<rparr>"

section \<open>Describing the retry loop and the pacing\<close>

text \<open>
  \<open>backoff_events\<close> is what one rate-limited attempt records: the request, the backoff
  sleep of that attempt, and the pacing gate. \<open>respond\<close> is what \<^verbatim>\<open>get\<close> does with a response
  it does not retry, \<open>http_failure\<close> the message of its error for a status that is not a
  success, and \<open>outcome_event\<close> the event which closes the call.
\<close>

definition backoff_events :: "config \<Rightarrow> string \<Rightarrow> (string \<times> string) list \<Rightarrow> nat \<Rightarrow> event list" where
  "backoff_events cfg path ps attempt =
     [EvFetch path ps, EvSleep (MIN_REQUEST_INTERVAL_MS cfg + int attempt * 1000), EvPace]"

definition http_failure :: "config \<Rightarrow> string \<Rightarrow> nat \<Rightarrow> api_data \<Rightarrow> string" where
  "http_failure cfg path status data =
     js_String (js_or (d_message data) (js_or (d_msg data)
       (JStr (''HTTP '' @ string_of_nat status)))) @ '' @ '' @ pathname cfg path"

definition respond :: "config \<Rightarrow> string \<Rightarrow> nat \<Rightarrow> api_data \<Rightarrow> error + api_data" where
  "respond cfg path status data =
     (if \<not> ok status then Inl (Thrown (http_failure cfg path status data))
      else if truthy (d_status data) \<and> d_status data \<noteq> JStr ''success'' then
        Inl (Thrown (js_String (js_or (d_msg data) (JStr ''API status error''))
                     @ '' @ '' @ pathname cfg path))
      else Inr data)"

definition outcome_event :: "error + api_data \<Rightarrow> event" where
  "outcome_event r = (case r of Inr d \<Rightarrow> EvReturn d | Inl (Thrown m) \<Rightarrow> EvThrow m
     | Inl (Exit m) \<Rightarrow> EvThrow m)"

text \<open>A server that is always rate limiting, and one that always fails, with the same body.\<close>

definition limit_body :: api_data where
  "limit_body = no_data\<lparr>d_message := JStr ''Too Many Requests''\<rparr>"

definition busy_env :: env where
  "busy_env = quiet_env\<lparr>http := (\<lambda>n path ps. Response 429 limit_body)\<rparr>"

definition down_env :: env where
  "down_env = quiet_env\<lparr>http := (\<lambda>n path ps. Response 500 limit_body)\<rparr>"

text \<open>
  \<open>spaced m starts\<close>: consecutive request starts are at least \<open>m\<close> apart. \<open>calls\<close> sends a list
  of requests, to any endpoints, one after the other through the one client, whatever
  their outcomes. \<open>unthrottled env n reqs\<close>: none of the responses to \<open>reqs\<close>, the first
  being the \<open>n\<close>-th of the process, is a 429, so that no call retries. \<open>punctual env\<close>: no
  timer ends early on the clock that \<^verbatim>\<open>Date.now()\<close> reads, and every request starts at the
  instant its gate was passed. \<open>kept\<close> and \<open>ready\<close> are the invariant of the pacing after a
  request and after the gate.
\<close>

definition punctual :: "env \<Rightarrow> bool" where
  "punctual env = (\<forall>n. \<not> timer_early env n \<and> fetch_delay env n = 0)"

fun spaced :: "int \<Rightarrow> int list \<Rightarrow> bool" where
  "spaced m [] = True"
| "spaced m [x] = True"
| "spaced m (x # y # ys) = (x + m \<le> y \<and> spaced m (y # ys))"

fun calls ::
  "env \<Rightarrow> config \<Rightarrow> (string \<times> (string \<times> jsval) list) list \<Rightarrow> world
     \<Rightarrow> (error + api_data) list \<times> world"
where
  "calls env cfg [] w = ([], w)"
| "calls env cfg ((path, params) # reqs) w =
     (case get env cfg path params 6 w of
        (r, w1) \<Rightarrow> (case calls env cfg reqs w1 of (rs, w2) \<Rightarrow> (r # rs, w2)))"

definition kept :: "int \<Rightarrow> int list \<Rightarrow> world \<Rightarrow> int list \<Rightarrow> bool" where
  "kept m old w starts =
     (fetch_starts w = old @ starts \<and> spaced m starts
      \<and> (starts \<noteq> [] \<longrightarrow> last starts \<le> lastTs w))"

definition ready :: "int \<Rightarrow> int list \<Rightarrow> world \<Rightarrow> int list \<Rightarrow> bool" where
  "ready m old w starts =
     (fetch_starts w = old @ starts \<and> spaced m starts \<and> lastTs w = clock w
      \<and> (starts \<noteq> [] \<longrightarrow> last starts + m \<le> clock w))"

definition unthrottled :: "env \<Rightarrow> nat \<Rightarrow> (string \<times> (string \<times> jsval) list) list \<Rightarrow> bool" where
  "unthrottled env n reqs =
     (\<forall>i<length reqs. \<forall>d. http env (n + i) (fst (reqs ! i)) (query_params (snd (reqs ! i)))
        \<noteq> Response 429 d)"

definition three_calls :: "(string \<times> (string \<times> jsval) list) list" where
  "three_calls = [(''/twitter/user/info'', [(''userName'', JStr ''alice'')]),
     (''/twitter/tweets'', [(''tweet_ids'', JStr ''1,2'')]),
     (''/twitter/user/info'', [(''userName'', JStr ''bob'')])]"

text \<open>An environment in which every timer ends a millisecond early, and two calls.\<close>

definition hasty_env :: env where
  "hasty_env = quiet_env\<lparr>timer_early := (\<lambda>n. True)\<rparr>"

definition two_calls :: "(string \<times> (string \<times> jsval) list) list" where
  "two_calls = [(''/twitter/user/info'', [(''userName'', JStr ''alice'')]),
     (''/twitter/user/info'', [(''userName'', JStr ''bob'')])]"

section \<open>Failures in a trace\<close>















section \<open>Coalesce-on-conflict of the post upsert\<close>

text \<open>
  Claim C7. When \<^verbatim>\<open>upsertCommunityTweet\<close> is accepted for a (community, tweet id) that already
  has a row, every column of the stored row (creation time, author id, author handle, url,
  text) keeps its previous value if the incoming parameter is NULL and takes the incoming
  value otherwise. In particular a null author handle never replaces a stored handle.
\<close>

theorem upsert_coalesce:
  assumes "community_tweets (store w) (c, tw_tweet_id tw) = Some old"
    and "upsertCommunityTweet env c tw w = (Inr u, w')"
  shows "\<exists>new. community_tweets (store w') (c, tw_tweet_id tw) = Some new
    \<and> r_created_at new = (case tw_created_at tw of None \<Rightarrow> r_created_at old | Some v \<Rightarrow> Some v)
    \<and> r_author_user_id new =
        (case pg_text (tw_author_user_id tw) of None \<Rightarrow> r_author_user_id old | Some v \<Rightarrow> Some v)
    \<and> r_author_username new =
        (case pg_text (tw_author_username tw) of None \<Rightarrow> r_author_username old | Some v \<Rightarrow> Some v)
    \<and> r_url new = (case pg_text (tw_url tw) of None \<Rightarrow> r_url old | Some v \<Rightarrow> Some v)
    \<and> r_text new = (case pg_text (tw_text tw) of None \<Rightarrow> r_text old | Some v \<Rightarrow> Some v)"
  using assms
  by (auto simp: upsertCommunityTweet_def q_def Let_def emit_def coalesce_row_def tweet_params_def
      split: option.splits)

theorem upsert_coalesce_witness:
  "community_tweets (store alice_world) (''c'', tw_tweet_id anon_tweet) = Some alice_row
   \<and> fst (upsertCommunityTweet quiet_env ''c'' anon_tweet alice_world) = Inr ()
   \<and> (\<exists>new. community_tweets (store (snd (upsertCommunityTweet quiet_env ''c'' anon_tweet alice_world)))
         (''c'', ''t1'') = Some new
       \<and> r_author_username new = Some ''alice'' \<and> r_text new = Some ''bye'')"
proof -
  have a: "community_tweets (store alice_world) (''c'', tw_tweet_id anon_tweet) = Some alice_row"
    by (simp add: alice_world_def anon_tweet_def start_world_def empty_db_def)
  have b: "upsertCommunityTweet quiet_env ''c'' anon_tweet alice_world
     = (Inr (), snd (upsertCommunityTweet quiet_env ''c'' anon_tweet alice_world))"
    by (simp add: upsertCommunityTweet_def q_def Let_def quiet_env_def)
  have c: "fst (upsertCommunityTweet quiet_env ''c'' anon_tweet alice_world) = Inr ()"
    by (subst b) simp
  from upsert_coalesce [OF a b] obtain new where
    n: "community_tweets (store (snd (upsertCommunityTweet quiet_env ''c'' anon_tweet alice_world)))
         (''c'', ''t1'') = Some new"
      "r_author_username new = Some ''alice''" "r_text new = Some ''bye''"
    by (auto simp: anon_tweet_def alice_row_def)
  show ?thesis using a c n by blast
qed

section \<open>Profiles without identifier or handle\<close>

text \<open>
  Claim C8. For a user payload whose identifier or handle is missing (falsy), \<^verbatim>\<open>upsertUser\<close>
  returns normally and leaves the world as it was: no statement is sent, no row is written
  and no error is raised.
\<close>

theorem upsertUser_drops:
  assumes "\<not> truthy (u_id u) \<or> \<not> truthy (u_userName u)"
  shows "upsertUser env u w = (Inr (), w)"
  using assms by (auto simp: upsertUser_def Let_def js_or_def)

theorem upsertUser_drops_witness:
  "\<not> truthy (u_userName nameless_user)
   \<and> upsertUser quiet_env nameless_user start_world = (Inr (), start_world)"
proof -
  have h: "\<not> truthy (u_userName nameless_user)"
    by (simp add: nameless_user_def)
  then have "\<not> truthy (u_id nameless_user) \<or> \<not> truthy (u_userName nameless_user)" by simp
  from upsertUser_drops [OF this] show ?thesis using h by simp
qed

section \<open>Evaluation of the samples and accepted statements\<close>

lemmas sample_defs = sample_tweet_def page_data_def number_dates_def sample_cfg_def aged_page_def
  aged_env_def tracked_world_def quiet_env_def start_world_def empty_db_def no_data_def

lemmas client_defs = getCommunityTweets_def get_def pace_def sleep_def fetch_def emit_def
  query_params_def ok_def throw_def die_def Let_def

lemma q_accepted:
  assumes "db_error env (nquery w) = None"
  shows "q env stmt w = (Inr (), (emit (EvQuery stmt) w)
           \<lparr>clock := clock w + int (db_time env (nquery w)), nquery := nquery w + 1,
            store := sql_effect stmt (store w)\<rparr>)"
  using assms by (simp add: q_def Let_def emit_def)

lemma upsert_accepted:
  assumes "db_error env (nquery w) = None"
  shows "\<exists>w'. upsertCommunityTweet env c (normalizeTweet env t) w = (Inr (), w')
     \<and> trace w' = trace w @ [upsert_event env c t]
     \<and> ingest_state (store w') = ingest_state (store w)
     \<and> nquery w' = nquery w + 1 \<and> nfetch w' = nfetch w"
  using assms
  by (simp add: upsertCommunityTweet_def q_accepted upsert_event_def emit_def split: option.splits)




section \<open>Backfill: items without a parsed creation time\<close>

text \<open>
  Claim C10. An item whose normalized \<open>created_at\<close> is null never passes the cutoff test of
  the backfill loop, whatever the cutoff is: when the loop reaches it, the item is handed
  to \<^verbatim>\<open>upsertCommunityTweet\<close> and the loop goes on with the items after it.
\<close>

theorem backfill_unparsed_item:
  assumes "tw_created_at (normalizeTweet env t) = None"
  shows "\<not> past_cutoff cutoffTs (normalizeTweet env t)
    \<and> backfill_page env c cutoffTs (t # ts) w =
       (case upsertCommunityTweet env c (normalizeTweet env t) w of
          (Inl e, w1) \<Rightarrow> (Inl e, w1)
        | (Inr u, w1) \<Rightarrow> backfill_page env c cutoffTs ts w1)"
  using assms by (simp add: past_cutoff_def Let_def split: option.splits)

theorem backfill_unparsed_item_witness:
  "tw_created_at (normalizeTweet aged_env (sample_tweet ''T7'' (JStr ''garbage''))) = None
   \<and> fst (backfill_page aged_env ''c'' (Some 500) [sample_tweet ''T7'' (JStr ''garbage'')] start_world) = Inr False
   \<and> trace (snd (backfill_page aged_env ''c'' (Some 500) [sample_tweet ''T7'' (JStr ''garbage'')] start_world))
      = [upsert_event aged_env ''c'' (sample_tweet ''T7'' (JStr ''garbage''))]"
proof -
  have h: "tw_created_at (normalizeTweet aged_env (sample_tweet ''T7'' (JStr ''garbage''))) = None"
    by (simp add: normalizeTweet_def parseCreatedAt_def sample_defs)
  have e: "db_error aged_env (nquery start_world) = None"
    by (simp add: sample_defs)
  from upsert_accepted [OF e, of "''c''" "sample_tweet ''T7'' (JStr ''garbage'')"]
  obtain w' where u: "upsertCommunityTweet aged_env ''c'' (normalizeTweet aged_env (sample_tweet ''T7'' (JStr ''garbage''))) start_world = (Inr (), w')"
     "trace w' = trace start_world @ [upsert_event aged_env ''c'' (sample_tweet ''T7'' (JStr ''garbage''))]"
    by blast
  from backfill_unparsed_item [OF h, of "Some 500" "''c''" "[]" start_world]
  have "backfill_page aged_env ''c'' (Some 500) [sample_tweet ''T7'' (JStr ''garbage'')] start_world
     = (case upsertCommunityTweet aged_env ''c'' (normalizeTweet aged_env (sample_tweet ''T7'' (JStr ''garbage''))) start_world of
          (Inl e, w1) \<Rightarrow> (Inl e, w1)
        | (Inr u, w1) \<Rightarrow> backfill_page aged_env ''c'' (Some 500) [] w1)"
    by (rule conjunct2)
  then have "backfill_page aged_env ''c'' (Some 500) [sample_tweet ''T7'' (JStr ''garbage'')] start_world
     = (Inr False, w')"
    by (simp only: u prod.case sum.case backfill_page.simps(1))
  then show ?thesis using h u(2) by (simp add: start_world_def)
qed

section \<open>Backfill: the page that reaches the cutoff\<close>




section \<open>What a call of the client leaves behind\<close>

lemma pace_frame: "store (pace env cfg w) = store w \<and> nquery (pace env cfg w) = nquery w"
  by (simp add: pace_def sleep_def emit_def Let_def)

lemma pace_trace: "\<exists>evs. trace (pace env cfg w) = trace w @ evs \<and> list_all client_event evs"
  by (simp add: pace_def sleep_def emit_def Let_def client_event_def)

lemma sleep_trace: "trace (sleep env ms w) = trace w @ [EvSleep ms]"
  by (simp add: sleep_def emit_def)

lemma get_loop_network:
  assumes "http env (nfetch w) path ps = NetworkError msg"
  shows "get_loop env cfg path ps retries attempt0 w = throw msg (snd (fetch env path ps w))"
  using assms by (subst get_loop.simps) (simp add: fetch_def Let_def)

lemma get_loop_429:
  assumes "http env (nfetch w) path ps = Response 429 data" and "attempt0 + 1 \<le> retries"
  shows "get_loop env cfg path ps retries attempt0 w =
    get_loop env cfg path ps retries (attempt0 + 1)
      (pace env cfg (sleep env (MIN_REQUEST_INTERVAL_MS cfg + int (attempt0 + 1) * 1000)
         (snd (fetch env path ps w))))"
  using assms by (subst get_loop.simps) (simp add: fetch_def Let_def)

lemma get_loop_final:
  assumes "http env (nfetch w) path ps = Response status data"
    and "\<not> (status = 429 \<and> attempt0 + 1 \<le> retries)"
  shows "get_loop env cfg path ps retries attempt0 w =
    (if \<not> ok status then
       throw (js_String (js_or (d_message data) (js_or (d_msg data)
                (JStr (''HTTP '' @ string_of_nat status))))
              @ '' @ '' @ pathname cfg path) (snd (fetch env path ps w))
     else if truthy (d_status data) \<and> d_status data \<noteq> JStr ''success'' then
       throw (js_String (js_or (d_msg data) (JStr ''API status error''))
              @ '' @ '' @ pathname cfg path) (snd (fetch env path ps w))
     else (Inr data, emit (EvReturn data) (snd (fetch env path ps w))))"
  using assms by (subst get_loop.simps) (auto simp add: fetch_def Let_def)

lemma fetch_frame:
  "store (snd (fetch env path ps w)) = store w" "nquery (snd (fetch env path ps w)) = nquery w"
  "trace (snd (fetch env path ps w)) = trace w @ [EvFetch path ps]"
  by (simp_all add: fetch_def emit_def)

lemma sleep_frame: "store (sleep env ms w) = store w" "nquery (sleep env ms w) = nquery w"
  by (simp_all add: sleep_def emit_def)

lemma get_loop_frame:
  "get_loop env cfg path ps retries a w = (r, w') \<Longrightarrow> store w' = store w \<and> nquery w' = nquery w"
proof (induction env cfg path ps retries a w rule: get_loop.induct)
  case (1 env cfg path ps retries attempt0 w)
  show ?case
  proof (cases "http env (nfetch w) path ps")
    case (NetworkError msg)
    with "1.prems" show ?thesis
      by (auto simp: get_loop_network throw_def emit_def fetch_frame)
  next
    case (Response status data)
    show ?thesis
    proof (cases "status = 429 \<and> attempt0 + 1 \<le> retries")
      case True
      let ?w1 = "snd (fetch env path ps w)"
      let ?w2 = "pace env cfg (sleep env (MIN_REQUEST_INTERVAL_MS cfg + int (attempt0 + 1) * 1000) ?w1)"
      have f: "fetch env path ps w = (Response status data, ?w1)"
        using Response by (simp add: fetch_def)
      from "1.prems" True Response have "get_loop env cfg path ps retries (attempt0 + 1) ?w2 = (r, w')"
        by (simp add: get_loop_429)
      from "1.IH" [OF refl f [symmetric] refl True refl this]
      have "store w' = store ?w2 \<and> nquery w' = nquery ?w2" .
      then show ?thesis
        by (simp add: pace_frame sleep_frame fetch_frame)
    next
      case False
      with "1.prems" Response show ?thesis
        by (auto simp: get_loop_final throw_def emit_def fetch_frame split: if_splits)
    qed
  qed
qed

lemma get_frame:
  "get env cfg path params retries w = (r, w') \<Longrightarrow> store w' = store w \<and> nquery w' = nquery w"
  by (auto simp: get_def die_def pace_frame dest!: get_loop_frame split: if_splits)

lemma get_events_prepend:
  assumes "get_events r evs" and "list_all client_event pre" and "\<forall>m. r \<noteq> Inl (Exit m)"
  shows "get_events r (pre @ evs)"
proof (cases r)
  case (Inl e)
  with assms(3) obtain m where "e = Thrown m" by (cases e) auto
  with Inl assms(1) obtain p where "evs = p @ [EvThrow m]" "list_all client_event p"
    by (auto simp: get_events_def)
  with assms(2) have "pre @ evs = (pre @ p) @ [EvThrow m]" "list_all client_event (pre @ p)"
    by simp_all
  with Inl \<open>e = Thrown m\<close> show ?thesis
    unfolding get_events_def by (simp only: sum.case error.case) blast
next
  case (Inr d)
  with assms(1) obtain p where "evs = p @ [EvReturn d]" "list_all client_event p"
    by (auto simp: get_events_def)
  with assms(2) have "pre @ evs = (pre @ p) @ [EvReturn d]" "list_all client_event (pre @ p)"
    by simp_all
  with Inr show ?thesis
    unfolding get_events_def by (simp only: sum.case) blast
qed

lemma get_loop_trace:
  "get_loop env cfg path ps retries a w = (r, w') \<Longrightarrow>
   \<exists>evs. trace w' = trace w @ evs \<and> get_events r evs \<and> (\<forall>m. r \<noteq> Inl (Exit m))"
proof (induction env cfg path ps retries a w rule: get_loop.induct)
  case (1 env cfg path ps retries attempt0 w)
  show ?case
  proof (cases "http env (nfetch w) path ps")
    case (NetworkError msg)
    with "1.prems" have "r = Inl (Thrown msg)" "trace w' = trace w @ [EvFetch path ps] @ [EvThrow msg]"
      by (auto simp: get_loop_network throw_def emit_def fetch_frame)
    then show ?thesis
      by (auto simp: get_events_def client_event_def)
  next
    case (Response status data)
    show ?thesis
    proof (cases "status = 429 \<and> attempt0 + 1 \<le> retries")
      case True
      let ?w1 = "snd (fetch env path ps w)"
      let ?ms = "MIN_REQUEST_INTERVAL_MS cfg + int (attempt0 + 1) * 1000"
      let ?w2 = "pace env cfg (sleep env ?ms ?w1)"
      have f: "fetch env path ps w = (Response status data, ?w1)"
        using Response by (simp add: fetch_def)
      from "1.prems" True Response have "get_loop env cfg path ps retries (attempt0 + 1) ?w2 = (r, w')"
        by (simp add: get_loop_429)
      from "1.IH" [OF refl f [symmetric] refl True refl this]
      obtain evs where e: "trace w' = trace ?w2 @ evs" "get_events r evs" "\<forall>m. r \<noteq> Inl (Exit m)"
        by blast
      from pace_trace [of env cfg "sleep env ?ms ?w1"] obtain pevs where
        p: "trace ?w2 = trace (sleep env ?ms ?w1) @ pevs" "list_all client_event pevs" by blast
      have "trace w' = trace w @ ([EvFetch path ps, EvSleep ?ms] @ pevs) @ evs"
        using e(1) p(1) by (simp add: sleep_trace fetch_frame)
      moreover have "list_all client_event ([EvFetch path ps, EvSleep ?ms] @ pevs)"
        using p(2) by (simp add: client_event_def)
      ultimately show ?thesis using e(2,3) get_events_prepend by blast
    next
      case False
      with "1.prems" Response
      have "\<exists>l. trace w' = trace w @ [EvFetch path ps] @ [l]
          \<and> l = (case r of Inr d \<Rightarrow> EvReturn d | Inl (Thrown m) \<Rightarrow> EvThrow m | Inl (Exit m) \<Rightarrow> EvPace)
          \<and> (\<forall>m. r \<noteq> Inl (Exit m))"
        by (auto simp: get_loop_final throw_def emit_def fetch_frame split: if_splits)
      then show ?thesis
        by (auto simp: get_events_def client_event_def split: sum.splits error.splits)
    qed
  qed
qed

lemma get_trace:
  assumes "get env cfg path params retries w = (r, w')"
  shows "\<exists>evs. trace w' = trace w @ evs \<and> get_events r evs"
proof (cases "API_KEY cfg = []")
  case True
  with assms show ?thesis by (auto simp: get_def die_def get_events_def)
next
  case False
  with assms have "get_loop env cfg path (query_params params) retries 0 (pace env cfg w) = (r, w')"
    by (simp add: get_def)
  from get_loop_trace [OF this] obtain evs where
    e: "trace w' = trace (pace env cfg w) @ evs" "get_events r evs" "\<forall>m. r \<noteq> Inl (Exit m)" by blast
  from pace_trace [of env cfg w] obtain pevs where
    p: "trace (pace env cfg w) = trace w @ pevs" "list_all client_event pevs" by blast
  have "get_events r (pevs @ evs)"
    using e(2) p(2) e(3) by (rule get_events_prepend)
  moreover have "trace w' = trace w @ pevs @ evs" using e(1) p(1) by simp
  ultimately show ?thesis by blast
qed


section \<open>Accepted and rejected statements\<close>

lemma q_result:
  assumes "q env stmt w = (Inr u, w')"
  shows "trace w' = trace w @ [EvQuery stmt]" "store w' = sql_effect stmt (store w)"
    "nquery w' = nquery w + 1" "nfetch w' = nfetch w"
  using assms by (auto simp: q_def Let_def emit_def split: option.splits)

lemma q_store:
  assumes "q env stmt w = (r, w')"
  shows "store w' = store w \<or> store w' = sql_effect stmt (store w)"
  using assms by (auto simp: q_def Let_def emit_def split: option.splits)

lemma upsert_result:
  assumes "upsertCommunityTweet env c (normalizeTweet env t) w = (Inr u, w')"
  shows "trace w' = trace w @ [upsert_event env c t]"
    "ingest_state (store w') = ingest_state (store w)"
  using assms q_result [of env _ w u w']
  by (auto simp: upsertCommunityTweet_def upsert_event_def split: option.splits)

lemma upsert_frame:
  assumes "upsertCommunityTweet env c tw w = (r, w')"
  shows "ingest_state (store w') = ingest_state (store w)"
  using assms
  by (auto simp: upsertCommunityTweet_def q_def Let_def emit_def split: option.splits)

section \<open>The incremental loop\<close>

lemma ingest_page_frame:
  "ingest_page env c stopId tweets w = (r, w') \<Longrightarrow> ingest_state (store w') = ingest_state (store w)"
proof (induction tweets arbitrary: w)
  case Nil
  then show ?case by simp
next
  case (Cons t ts)
  show ?case
  proof (cases "truthy stopId \<and> JStr (js_String (t_id t)) = stopId")
    case True
    with Cons.prems show ?thesis by (auto simp: Let_def)
  next
    case False
    obtain r1 w1 where u: "upsertCommunityTweet env c (normalizeTweet env t) w = (r1, w1)"
      by (cases "upsertCommunityTweet env c (normalizeTweet env t) w")
    show ?thesis
    proof (cases r1)
      case (Inl e)
      with Cons.prems False u upsert_frame [OF u] show ?thesis by (auto simp: Let_def)
    next
      case (Inr x)
      with Cons.prems False u have "ingest_page env c stopId ts w1 = (r, w')"
        by (auto simp: Let_def)
      from Cons.IH [OF this] upsert_frame [OF u] show ?thesis by simp
    qed
  qed
qed

lemma ingest_page_run:
  assumes "s \<noteq> []"
  shows "ingest_page env c (JStr s) tweets w = (Inr stopped, w') \<Longrightarrow>
    trace w' = trace w @ map (upsert_event env c) (takeWhile (no_match s) tweets)
    \<and> stopped = (\<exists>t\<in>set tweets. \<not> no_match s t)"
proof (induction tweets arbitrary: w)
  case Nil
  then show ?case by simp
next
  case (Cons t ts)
  show ?case
  proof (cases "no_match s t")
    case False
    with Cons.prems assms show ?thesis by (auto simp: Let_def no_match_def)
  next
    case True
    obtain r1 w1 where u: "upsertCommunityTweet env c (normalizeTweet env t) w = (r1, w1)"
      by (cases "upsertCommunityTweet env c (normalizeTweet env t) w")
    show ?thesis
    proof (cases r1)
      case (Inl e)
      with Cons.prems True u show ?thesis by (auto simp: Let_def no_match_def)
    next
      case (Inr x)
      with Cons.prems True u have "ingest_page env c (JStr s) ts w1 = (Inr stopped, w')"
        by (auto simp: Let_def no_match_def)
      from Cons.IH [OF this] upsert_result [OF u [unfolded Inr]] True show ?thesis by simp
    qed
  qed
qed

lemma ingest_loop_done:
  "\<not> int page \<le> TOP_PAGES cfg \<Longrightarrow>
   ingest_loop env cfg c stopId page cursor nls w = (Inr nls, w)"
  by (subst ingest_loop.simps) simp

lemma ingest_loop_success:
  assumes "ingest_loop env cfg c stopId page cursor nls w = (Inr r, w')"
    and "int page \<le> TOP_PAGES cfg"
  shows "\<exists>data w1 stopped w2.
      getCommunityTweets env cfg c cursor w = (Inr data, w1)
    \<and> ingest_page env c stopId (tweets_of data) w1 = (Inr stopped, w2)
    \<and> (if stopped \<or> no_next_page data
       then r = captured page (tweets_of data) nls \<and> w' = w2
       else ingest_loop env cfg c stopId (page + 1) (d_next_cursor data)
              (captured page (tweets_of data) nls) w2 = (Inr r, w'))"
proof -
  obtain r1 w1 where g: "getCommunityTweets env cfg c cursor w = (r1, w1)"
    by (cases "getCommunityTweets env cfg c cursor w")
  show ?thesis
  proof (cases r1)
    case (Inl e)
    with assms g show ?thesis by (subst (asm) ingest_loop.simps) simp
  next
    case (Inr data)
    obtain r2 w2 where p: "ingest_page env c stopId (tweets_of data) w1 = (r2, w2)"
      by (cases "ingest_page env c stopId (tweets_of data) w1")
    show ?thesis
    proof (cases r2)
      case (Inl e)
      with assms g Inr p show ?thesis
        by (subst (asm) ingest_loop.simps) (simp add: Let_def)
    next
      case stopped: (Inr stopped)
      with assms g Inr p show ?thesis
        by (subst (asm) ingest_loop.simps) (auto simp: Let_def captured_def split: if_splits)
    qed
  qed
qed

lemma ingest_loop_later:
  "ingest_loop env cfg c stopId page cursor nls w = (Inr r, w') \<Longrightarrow> 1 < page \<Longrightarrow> r = nls"
proof (induction "nat (TOP_PAGES cfg + 1 - int page)" arbitrary: page cursor w)
  case 0
  then have "\<not> int page \<le> TOP_PAGES cfg" by simp
  with "0.prems" show ?case by (simp add: ingest_loop_done)
next
  case (Suc k)
  then have b: "int page \<le> TOP_PAGES cfg" by simp
  from ingest_loop_success [OF Suc.prems(1) b] obtain data w1 stopped w2 where
    s: "if stopped \<or> no_next_page data
       then r = captured page (tweets_of data) nls \<and> w' = w2
       else ingest_loop env cfg c stopId (page + 1) (d_next_cursor data)
              (captured page (tweets_of data) nls) w2 = (Inr r, w')"
    by blast
  have c: "captured page (tweets_of data) nls = nls" using Suc.prems(2) by (simp add: captured_def)
  show ?case
  proof (cases "stopped \<or> no_next_page data")
    case True
    with s c show ?thesis by simp
  next
    case False
    with s c have rec: "ingest_loop env cfg c stopId (page + 1) (d_next_cursor data) nls w2 = (Inr r, w')"
      by simp
    have k: "k = nat (TOP_PAGES cfg + 1 - int (page + 1))" using Suc.hyps(2) by simp
    have "1 < page + 1" using Suc.prems(2) by simp
    from Suc.hyps(1) [OF k rec this] show ?thesis .
  qed
qed

lemma ingest_loop_frame:
  "ingest_loop env cfg c stopId page cursor nls w = (Inr r, w') \<Longrightarrow>
   ingest_state (store w') = ingest_state (store w)"
proof (induction "nat (TOP_PAGES cfg + 1 - int page)" arbitrary: page cursor nls w)
  case 0
  then have "\<not> int page \<le> TOP_PAGES cfg" by simp
  with "0.prems" show ?case by (simp add: ingest_loop_done)
next
  case (Suc k)
  then have b: "int page \<le> TOP_PAGES cfg" by simp
  from ingest_loop_success [OF Suc.prems(1) b] obtain data w1 stopped w2 where
    g: "getCommunityTweets env cfg c cursor w = (Inr data, w1)"
    and p: "ingest_page env c stopId (tweets_of data) w1 = (Inr stopped, w2)"
    and s: "if stopped \<or> no_next_page data
       then r = captured page (tweets_of data) nls \<and> w' = w2
       else ingest_loop env cfg c stopId (page + 1) (d_next_cursor data)
              (captured page (tweets_of data) nls) w2 = (Inr r, w')"
    by blast
  have f: "ingest_state (store w2) = ingest_state (store w)"
    using get_frame [OF g [unfolded getCommunityTweets_def]] ingest_page_frame [OF p] by simp
  show ?case
  proof (cases "stopped \<or> no_next_page data")
    case True
    with s f show ?thesis by simp
  next
    case False
    with s have rec: "ingest_loop env cfg c stopId (page + 1) (d_next_cursor data)
              (captured page (tweets_of data) nls) w2 = (Inr r, w')"
      by simp
    have k: "k = nat (TOP_PAGES cfg + 1 - int (page + 1))" using Suc.hyps(2) by simp
    from Suc.hyps(1) [OF k rec] have "ingest_state (store w') = ingest_state (store w2)" .
    with f show ?thesis by simp
  qed
qed

lemma ingest_loop_first:
  assumes "ingest_loop env cfg (COMMUNITY_ID cfg) stopId 1 JNull JNull w = (Inr r, w')"
  shows "r = first_page_candidate env cfg w"
proof (cases "int 1 \<le> TOP_PAGES cfg")
  case False
  with assms show ?thesis by (simp add: ingest_loop_done first_page_candidate_def)
next
  case True
  from ingest_loop_success [OF assms True] obtain data w1 stopped w2 where
    g: "getCommunityTweets env cfg (COMMUNITY_ID cfg) JNull w = (Inr data, w1)"
    and s: "if stopped \<or> no_next_page data
       then r = captured 1 (tweets_of data) JNull \<and> w' = w2
       else ingest_loop env cfg (COMMUNITY_ID cfg) stopId (1 + 1) (d_next_cursor data)
              (captured 1 (tweets_of data) JNull) w2 = (Inr r, w')"
    by blast
  have c: "captured 1 (tweets_of data) JNull = first_page_candidate env cfg w"
    using g True by (simp add: captured_def first_page_candidate_def)
  show ?thesis
  proof (cases "stopped \<or> no_next_page data")
    case True
    with s c show ?thesis by simp
  next
    case False
    with s have "ingest_loop env cfg (COMMUNITY_ID cfg) stopId (1 + 1) (d_next_cursor data)
              (captured 1 (tweets_of data) JNull) w2 = (Inr r, w')" by simp
    from ingest_loop_later [OF this] c show ?thesis by simp
  qed
qed

lemma returned_append: "returned (a @ b) = returned a @ returned b"
  by (simp add: returned_def)

lemma upserts_append: "upserts (a @ b) = upserts a @ upserts b"
  by (simp add: upserts_def)

lemma client_projections:
  "list_all client_event pre \<Longrightarrow> returned pre = [] \<and> upserts pre = []"
  by (induction pre) (auto simp: returned_def upserts_def client_event_def is_upsert_def split: event.splits)

lemma upsert_projections:
  "returned (map (upsert_event env c) xs) = [] \<and>
   upserts (map (upsert_event env c) xs) = map (upsert_event env c) xs"
  by (induction xs) (auto simp: returned_def upserts_def upsert_event_def is_upsert_def)

lemma get_projections:
  assumes "get_events (Inr d) evs"
  shows "returned evs = [d]" "upserts evs = []"
  using assms client_projections
  by (auto simp: get_events_def returned_append upserts_append)
     (auto simp: returned_def upserts_def is_upsert_def)

lemma ingest_page_accepted:
  assumes "s \<noteq> []"
  shows "\<forall>i<length (takeWhile (no_match s) tweets). db_error env (nquery w + i) = None \<Longrightarrow>
    \<exists>w'. ingest_page env c (JStr s) tweets w = (Inr (\<exists>t\<in>set tweets. \<not> no_match s t), w')
      \<and> trace w' = trace w @ map (upsert_event env c) (takeWhile (no_match s) tweets)
      \<and> nfetch w' = nfetch w"
proof (induction tweets arbitrary: w)
  case Nil
  then show ?case by simp
next
  case (Cons t ts)
  show ?case
  proof (cases "no_match s t")
    case False
    with assms show ?thesis by (simp add: Let_def no_match_def)
  next
    case True
    with Cons.prems have "db_error env (nquery w) = None" by force
    from upsert_accepted [OF this, of c t] obtain w1 where
      u: "upsertCommunityTweet env c (normalizeTweet env t) w = (Inr (), w1)"
         "trace w1 = trace w @ [upsert_event env c t]"
         "nquery w1 = nquery w + 1" "nfetch w1 = nfetch w"
      by blast
    have "\<forall>i<length (takeWhile (no_match s) ts). db_error env (nquery w1 + i) = None"
    proof (intro allI impI)
      fix i assume "i < length (takeWhile (no_match s) ts)"
      then have "Suc i < length (takeWhile (no_match s) (t # ts))" using True by simp
      with Cons.prems have "db_error env (nquery w + Suc i) = None" by blast
      then show "db_error env (nquery w1 + i) = None" using u(3) by simp
    qed
    from Cons.IH [OF this] obtain w' where
      r: "ingest_page env c (JStr s) ts w1 = (Inr (\<exists>t\<in>set ts. \<not> no_match s t), w')"
         "trace w' = trace w1 @ map (upsert_event env c) (takeWhile (no_match s) ts)"
         "nfetch w' = nfetch w1"
      by blast
    have nm: "js_String (t_id t) \<noteq> s" using True by (simp add: no_match_def)
    show ?thesis using True nm u r by (simp add: Let_def)
  qed
qed

lemma ingest_loop_step:
  assumes "s \<noteq> []"
    and "int page \<le> TOP_PAGES cfg"
    and "getCommunityTweets env cfg c cursor w = (Inr data, w1)"
    and "\<forall>i<length (takeWhile (no_match s) (tweets_of data)). db_error env (nquery w1 + i) = None"
  shows "\<exists>w2. trace w2 = trace w1 @ map (upsert_event env c) (takeWhile (no_match s) (tweets_of data))
      \<and> nfetch w2 = nfetch w1
      \<and> ingest_loop env cfg c (JStr s) page cursor nls w =
          (if (\<exists>t\<in>set (tweets_of data). \<not> no_match s t) \<or> no_next_page data
           then (Inr (captured page (tweets_of data) nls), w2)
           else ingest_loop env cfg c (JStr s) (page + 1) (d_next_cursor data)
                  (captured page (tweets_of data) nls) w2)"
proof -
  from ingest_page_accepted [OF assms(1,4), of c] obtain w2 where
    p: "ingest_page env c (JStr s) (tweets_of data) w1 = (Inr (\<exists>t\<in>set (tweets_of data). \<not> no_match s t), w2)"
       "trace w2 = trace w1 @ map (upsert_event env c) (takeWhile (no_match s) (tweets_of data))"
       "nfetch w2 = nfetch w1"
    by blast
  have "ingest_loop env cfg c (JStr s) page cursor nls w =
          (if (\<exists>t\<in>set (tweets_of data). \<not> no_match s t) \<or> no_next_page data
           then (Inr (captured page (tweets_of data) nls), w2)
           else ingest_loop env cfg c (JStr s) (page + 1) (d_next_cursor data)
                  (captured page (tweets_of data) nls) w2)"
    by (subst ingest_loop.simps) (simp add: assms(2,3) p(1) Let_def captured_def)
  with p(2,3) show ?thesis by blast
qed

lemma ingest_loop_scan:
  assumes "s \<noteq> []"
  shows "ingest_loop env cfg c (JStr s) page cursor nls w = (Inr r, w') \<Longrightarrow>
    \<exists>evs. trace w' = trace w @ evs
      \<and> upserts evs = map (upsert_event env c)
           (takeWhile (no_match s) (concat (map tweets_of (returned evs))))
      \<and> (\<forall>d\<in>set (butlast (returned evs)). \<forall>t\<in>set (tweets_of d). no_match s t)
      \<and> (int page \<le> TOP_PAGES cfg \<longrightarrow>
           returned evs \<noteq> []
           \<and> fst (getCommunityTweets env cfg c cursor w) = Inr (hd (returned evs)))
      \<and> ((\<exists>t\<in>set (concat (map tweets_of (returned evs))). \<not> no_match s t) \<longrightarrow>
           (\<exists>a b. evs = a @ EvReturn (last (returned evs)) # b \<and> list_all is_upsert b))"
proof (induction "nat (TOP_PAGES cfg + 1 - int page)" arbitrary: page cursor nls w)
  case 0
  then have nb: "\<not> int page \<le> TOP_PAGES cfg" by simp
  with "0.prems" have "w' = w" by (simp add: ingest_loop_done)
  then have "trace w' = trace w @ []" by simp
  moreover have "upserts [] = map (upsert_event env c)
           (takeWhile (no_match s) (concat (map tweets_of (returned []))))"
    by (simp add: upserts_def returned_def)
  moreover have "\<forall>d\<in>set (butlast (returned [])). \<forall>t\<in>set (tweets_of d). no_match s t"
    by (simp add: returned_def)
  moreover have "\<not> (\<exists>t\<in>set (concat (map tweets_of (returned []))). \<not> no_match s t)"
    by (simp add: returned_def)
  ultimately show ?case using nb by blast
next
  case (Suc k)
  then have b: "int page \<le> TOP_PAGES cfg" by simp
  from ingest_loop_success [OF Suc.prems(1) b] obtain data w1 stopped w2 where
    g: "getCommunityTweets env cfg c cursor w = (Inr data, w1)"
    and p: "ingest_page env c (JStr s) (tweets_of data) w1 = (Inr stopped, w2)"
    and st: "if stopped \<or> no_next_page data
       then r = captured page (tweets_of data) nls \<and> w' = w2
       else ingest_loop env cfg c (JStr s) (page + 1) (d_next_cursor data)
              (captured page (tweets_of data) nls) w2 = (Inr r, w')"
    by blast
  from get_trace [OF g [unfolded getCommunityTweets_def]] obtain gevs where
    ge: "trace w1 = trace w @ gevs" "get_events (Inr data) gevs" by blast
  note gp = get_projections [OF ge(2)]
  from ge(2) obtain pre where pre: "gevs = pre @ [EvReturn data]"
    by (auto simp: get_events_def)
  let ?ups = "map (upsert_event env c) (takeWhile (no_match s) (tweets_of data))"
  from ingest_page_run [OF assms p] have
    pe: "trace w2 = trace w1 @ ?ups" "stopped = (\<exists>t\<in>set (tweets_of data). \<not> no_match s t)"
    by simp_all
  note up = upsert_projections [of env c "takeWhile (no_match s) (tweets_of data)"]
  have ups_only: "list_all is_upsert (map (upsert_event env c) xs)" for xs
    by (induction xs) (simp_all add: is_upsert_def upsert_event_def)
  have first: "fst (getCommunityTweets env cfg c cursor w) = Inr data" using g by simp
  show ?case
  proof (cases "stopped \<or> no_next_page data")
    case True
    with st have "w' = w2" by simp
    then have t: "trace w' = trace w @ (gevs @ ?ups)" using ge(1) pe(1) by simp
    have r1: "returned (gevs @ ?ups) = [data]" and u1: "upserts (gevs @ ?ups) = ?ups"
      using gp up by (simp_all add: returned_append upserts_append)
    have "gevs @ ?ups = pre @ EvReturn data # ?ups" using pre by simp
    then have m: "\<exists>a b. gevs @ ?ups = a @ EvReturn (last (returned (gevs @ ?ups))) # b
        \<and> list_all is_upsert b"
      unfolding r1 using ups_only by auto
    show ?thesis
      using t r1 u1 m first by (intro exI [of _ "gevs @ ?ups"]) simp
  next
    case False
    with st have rec: "ingest_loop env cfg c (JStr s) (page + 1) (d_next_cursor data)
              (captured page (tweets_of data) nls) w2 = (Inr r, w')" by simp
    have k: "k = nat (TOP_PAGES cfg + 1 - int (page + 1))" using Suc.hyps(2) by simp
    from Suc.hyps(1) [OF k rec] obtain evs where
      e: "trace w' = trace w2 @ evs"
         "upserts evs = map (upsert_event env c)
           (takeWhile (no_match s) (concat (map tweets_of (returned evs))))"
         "\<forall>d\<in>set (butlast (returned evs)). \<forall>t\<in>set (tweets_of d). no_match s t"
         "(\<exists>t\<in>set (concat (map tweets_of (returned evs))). \<not> no_match s t) \<longrightarrow>
           (\<exists>a b. evs = a @ EvReturn (last (returned evs)) # b \<and> list_all is_upsert b)"
      by blast
    from False pe(2) have all: "\<forall>t\<in>set (tweets_of data). no_match s t" by blast
    then have tw: "takeWhile (no_match s) (tweets_of data) = tweets_of data" by simp
    let ?page = "map (upsert_event env c) (tweets_of data)"
    let ?all = "gevs @ ?page @ evs"
    have t: "trace w' = trace w @ ?all" using ge(1) pe(1) e(1) tw by simp
    have r1: "returned ?all = data # returned evs"
      using gp upsert_projections [of env c "tweets_of data"] by (simp add: returned_append)
    have u1: "upserts ?all = ?page @ upserts evs"
      using gp upsert_projections [of env c "tweets_of data"] by (simp add: upserts_append)
    have "takeWhile (no_match s) (concat (map tweets_of (data # returned evs)))
        = tweets_of data @ takeWhile (no_match s) (concat (map tweets_of (returned evs)))"
      using all by (simp add: takeWhile_append2)
    then have "map (upsert_event env c)
           (takeWhile (no_match s) (concat (map tweets_of (returned ?all))))
        = ?page @ upserts evs"
      unfolding r1 using e(2) by simp
    with u1 have u2: "upserts ?all = map (upsert_event env c)
           (takeWhile (no_match s) (concat (map tweets_of (returned ?all))))"
      by simp
    have bl: "\<forall>d\<in>set (butlast (returned ?all)). \<forall>t\<in>set (tweets_of d). no_match s t"
      unfolding r1 using e(3) all by (cases "returned evs = []") auto
    have fp: "returned ?all \<noteq> [] \<and> fst (getCommunityTweets env cfg c cursor w) = Inr (hd (returned ?all))"
      unfolding r1 using first by simp
    have am: "(\<exists>t\<in>set (concat (map tweets_of (returned ?all))). \<not> no_match s t) \<longrightarrow>
           (\<exists>a b. ?all = a @ EvReturn (last (returned ?all)) # b \<and> list_all is_upsert b)"
    proof
      assume "\<exists>t\<in>set (concat (map tweets_of (returned ?all))). \<not> no_match s t"
      with all have ex: "\<exists>t\<in>set (concat (map tweets_of (returned evs))). \<not> no_match s t"
        unfolding r1 by auto
      then have ne: "returned evs \<noteq> []" by auto
      from ex e(4) obtain a b where
        ab: "evs = a @ EvReturn (last (returned evs)) # b" "list_all is_upsert b" by blast
      have "last (returned ?all) = last (returned evs)" unfolding r1 using ne by simp
      moreover have "?all = (gevs @ ?page @ a) @ EvReturn (last (returned evs)) # b"
        using ab(1) by simp
      ultimately show "\<exists>a b. ?all = a @ EvReturn (last (returned ?all)) # b \<and> list_all is_upsert b"
        using ab(2) by metis
    qed
    from t u2 bl fp am show ?thesis by blast
  qed
qed

text \<open>Evaluation of runs on the samples; the payload of an upsert is left as it is.\<close>

lemma upsert_keeps_state:
  "ingest_state (sql_effect (UpsertCommunityTweet c i r) d) = ingest_state d"
  by (simp split: option.splits)

lemma sample_id: "t_id (sample_tweet i c) = JStr i"
  by (simp add: sample_tweet_def)

lemmas lazy_defs = ingestNew_def getState_def ensureStateRow_def q_def setLastSeenTweetId_def
  upsertCommunityTweet_def tweets_of_def no_next_page_def first_id_def js_or_def

lemmas feed_defs = feed_page_def feed_env_def one_page_cfg_def caught_up_world_def
  page_data_def number_dates_def sample_cfg_def tracked_world_def quiet_env_def
  start_world_def empty_db_def no_data_def

lemma feed_state:
  "getState feed_env ''c'' tracked_world =
     (Inr (Some \<lparr>backfill_cursor = Some ''old'', last_seen_tweet_id = Some ''T90''\<rparr>),
      snd (getState feed_env ''c'' tracked_world))"
  by (simp add: lazy_defs emit_def Let_def feed_defs)

lemma feed_run: "fst (ingestNew feed_env one_page_cfg tracked_world) = Inr ()"
  by (simp add: lazy_defs client_defs get_loop.simps ingest_loop.simps feed_defs
      upsert_keeps_state sample_id del: sql_effect.simps(6))

lemma feed_candidate:
  "first_page_candidate feed_env one_page_cfg (snd (getState feed_env ''c'' tracked_world))
     = JStr ''T100''"
  by (simp add: first_page_candidate_def lazy_defs client_defs get_loop.simps feed_defs sample_id)

lemma paged_env_simps:
  "date_time paged_env = number_dates"
  "http paged_env n p ps = Response 200
       (if map_of ps ''cursor'' = Some ''c1'' then second_page else first_page)"
  "http_time paged_env n = 0" "fetch_delay paged_env n = 0" "timer_early paged_env n = False"
  "sleep_extra paged_env n = 0" "db_error paged_env n = None" "db_time paged_env n = 0"
  by (simp_all add: paged_env_def quiet_env_def)

lemma page_simps:
  "d_status first_page = JStr ''success''"
  "tweets_of first_page = [sample_tweet ''T100'' (JNum 900), sample_tweet ''T99'' (JNum 890)]"
  "d_has_next_page first_page = JBool True" "d_next_cursor first_page = JStr ''c1''"
  "d_status second_page = JStr ''success''"
  "tweets_of second_page = [sample_tweet ''T98'' (JNum 880), sample_tweet ''T97'' (JNum 870),
     sample_tweet ''T96'' (JNum 860)]"
  "d_has_next_page second_page = JBool True" "d_next_cursor second_page = JStr ''c2''"
  by (simp_all add: first_page_def second_page_def page_data_def no_data_def tweets_of_def)

lemma paged_run:
  "fst (ingestNew paged_env sample_cfg caught_up_world) = Inr ()
   \<and> nfetch (snd (ingestNew paged_env sample_cfg caught_up_world)) = 2
   \<and> trace (snd (ingestNew paged_env sample_cfg caught_up_world)) =
     [EvQuery (InsertStateRow ''c''), EvQuery (SelectState ''c''), EvPace,
      EvFetch ''/twitter/community/tweets'' [(''community_id'', ''c'')],
      EvReturn first_page,
      upsert_event paged_env ''c'' (sample_tweet ''T100'' (JNum 900)),
      upsert_event paged_env ''c'' (sample_tweet ''T99'' (JNum 890)),
      EvPace, EvSleep 5200,
      EvFetch ''/twitter/community/tweets'' [(''community_id'', ''c''), (''cursor'', ''c1'')],
      EvReturn second_page,
      upsert_event paged_env ''c'' (sample_tweet ''T98'' (JNum 880)),
      EvQuery (UpdateLastSeenTweetId ''c'' (Some ''T100''))]"
  by (simp add: ingestNew_def getState_def ensureStateRow_def q_def setLastSeenTweetId_def
      upsertCommunityTweet_def no_next_page_def first_id_def js_or_def
      client_defs get_loop.simps ingest_loop.simps
      upsert_keeps_state upsert_event_def sample_id paged_env_simps page_simps
      caught_up_world_def sample_cfg_def start_world_def empty_db_def
      del: sql_effect.simps(6))

section \<open>Incremental driver: the candidate watermark\<close>

text \<open>
  Claim C2. Let a run of \<^verbatim>\<open>ingestNew\<close> return normally, whichever way its loop was left
  (watermark match, no next page, or page budget). If the first page requested had a first
  item with a (truthy) identifier, the stored watermark afterwards is that identifier as a
  string, whatever the stop conditions did; if no candidate was captured (no page was
  requested, or the first page was empty or its first item had no identifier), the stored
  watermark is the one that \<^verbatim>\<open>getState\<close> read.
\<close>

theorem ingestNew_watermark:
  assumes run: "ingestNew env cfg w = (Inr u, w')"
    and state: "getState env (COMMUNITY_ID cfg) w = (Inr (Some st), w1)"
  shows "map_option last_seen_tweet_id (ingest_state (store w') (COMMUNITY_ID cfg)) =
     Some (if truthy (first_page_candidate env cfg w1)
           then pg_text (first_page_candidate env cfg w1)
           else last_seen_tweet_id st)"
proof -
  let ?c = "COMMUNITY_ID cfg"
  let ?stop = "js_or (js_of_text (last_seen_tweet_id st)) JNull"
  have row: "ingest_state (store w1) ?c = Some st"
    using state
    by (auto simp: getState_def ensureStateRow_def split: prod.splits sum.splits dest!: q_result(2))
  from run have ne: "?c \<noteq> []" by (auto simp: ingestNew_def Let_def die_def)
  obtain r2 w2 where l: "ingest_loop env cfg ?c ?stop 1 JNull JNull w1 = (r2, w2)"
    by (cases "ingest_loop env cfg ?c ?stop 1 JNull JNull w1")
  show ?thesis
  proof (cases r2)
    case (Inl e)
    with run state ne l show ?thesis by (simp add: ingestNew_def Let_def)
  next
    case (Inr nls)
    from ingest_loop_first [OF l [unfolded Inr]] have n: "nls = first_page_candidate env cfg w1" .
    from ingest_loop_frame [OF l [unfolded Inr]] row have row2: "ingest_state (store w2) ?c = Some st"
      by simp
    show ?thesis
    proof (cases "truthy nls")
      case False
      with run state ne l Inr have "w' = w2" by (simp add: ingestNew_def Let_def)
      with row2 False n show ?thesis by simp
    next
      case True
      with run state ne l Inr have "setLastSeenTweetId env ?c nls w2 = (Inr u, w')"
        by (simp add: ingestNew_def Let_def)
      then have "store w' = sql_effect (UpdateLastSeenTweetId ?c (pg_text nls)) (store w2)"
        by (auto simp: setLastSeenTweetId_def dest: q_result(2))
      with row2 True n show ?thesis by simp
    qed
  qed
qed


theorem ingestNew_watermark_witness:
  "fst (ingestNew feed_env one_page_cfg tracked_world) = Inr ()
   \<and> last_seen_tweet_id (the (ingest_state (store tracked_world) ''c'')) = Some ''T90''
   \<and> map_option last_seen_tweet_id
       (ingest_state (store (snd (ingestNew feed_env one_page_cfg tracked_world))) ''c'')
      = Some (Some ''T100'')"
proof -
  have c: "COMMUNITY_ID one_page_cfg = ''c''" by (simp add: feed_defs)
  have run: "ingestNew feed_env one_page_cfg tracked_world
     = (Inr (), snd (ingestNew feed_env one_page_cfg tracked_world))"
    using feed_run by (metis prod.collapse)
  have old: "last_seen_tweet_id (the (ingest_state (store tracked_world) ''c'')) = Some ''T90''"
    by (simp add: feed_defs)
  from ingestNew_watermark [OF run feed_state [folded c]]
  show ?thesis using feed_run old by (simp add: c feed_candidate)
qed

section \<open>Incremental driver: stopping at the previous watermark\<close>

text \<open>
  Claim C4. Let the previous watermark be \<open>s\<close> (non-null, hence non-empty as \<^verbatim>\<open>ingestNew\<close>
  reads it).

  At every iteration of the page loop whose request returns a page and whose upserts are
  accepted, the items of the page that come before the first item with identifier \<open>s\<close> are
  upserted, in order, and nothing else is recorded or requested; if the page holds an item
  with identifier \<open>s\<close> the loop ends there, the matching item and the items after it not
  upserted and no further page requested, and otherwise it goes on with the next page
  exactly when the page announces one.

  A run of \<^verbatim>\<open>ingestNew\<close> that returns normally is that loop from page 1, followed by the
  update of the watermark when a candidate was captured. Its accepted post upserts are, in
  order, exactly the items of the returned pages that come before the first item with
  identifier \<open>s\<close>; its first returned page is the page that the service serves for the first
  request; no page but the last returned one holds a match; and once the page with the
  match is returned the loop records upserts only.
\<close>

theorem ingestNew_stops_at_watermark:
  assumes prev: "s \<noteq> []"
  shows
    "(int page \<le> TOP_PAGES cfg
        \<and> getCommunityTweets env cfg c cursor w = (Inr data, w1)
        \<and> (\<forall>i<length (takeWhile (no_match s) (tweets_of data)).
              db_error env (nquery w1 + i) = None)
      \<longrightarrow> (\<exists>w2. trace w2 = trace w1
                     @ map (upsert_event env c) (takeWhile (no_match s) (tweets_of data))
              \<and> nfetch w2 = nfetch w1
              \<and> ingest_loop env cfg c (JStr s) page cursor nls w =
                  (if (\<exists>t\<in>set (tweets_of data). \<not> no_match s t) \<or> no_next_page data
                   then (Inr (captured page (tweets_of data) nls), w2)
                   else ingest_loop env cfg c (JStr s) (page + 1) (d_next_cursor data)
                          (captured page (tweets_of data) nls) w2)))
     \<and> (ingestNew env cfg v = (Inr u, v')
        \<and> getState env (COMMUNITY_ID cfg) v = (Inr (Some st), v1)
        \<and> last_seen_tweet_id st = Some s
      \<longrightarrow> (\<exists>n v2 evs.
               ingest_loop env cfg (COMMUNITY_ID cfg) (JStr s) 1 JNull JNull v1 = (Inr n, v2)
             \<and> trace v2 = trace v1 @ evs
             \<and> trace v' = trace v2 @
                 (if truthy n
                  then [EvQuery (UpdateLastSeenTweetId (COMMUNITY_ID cfg) (pg_text n))] else [])
             \<and> upserts evs = map (upsert_event env (COMMUNITY_ID cfg))
                  (takeWhile (no_match s) (concat (map tweets_of (returned evs))))
             \<and> (\<forall>d\<in>set (butlast (returned evs)). \<forall>t\<in>set (tweets_of d). no_match s t)
             \<and> (1 \<le> TOP_PAGES cfg \<longrightarrow>
                  returned evs \<noteq> []
                  \<and> fst (getCommunityTweets env cfg (COMMUNITY_ID cfg) JNull v1)
                      = Inr (hd (returned evs)))
             \<and> ((\<exists>t\<in>set (concat (map tweets_of (returned evs))). \<not> no_match s t) \<longrightarrow>
                  (\<exists>a b. evs = a @ EvReturn (last (returned evs)) # b
                     \<and> list_all is_upsert b))))"
proof (intro conjI impI)
  assume "int page \<le> TOP_PAGES cfg
        \<and> getCommunityTweets env cfg c cursor w = (Inr data, w1)
        \<and> (\<forall>i<length (takeWhile (no_match s) (tweets_of data)).
              db_error env (nquery w1 + i) = None)"
  then show "\<exists>w2. trace w2 = trace w1
                     @ map (upsert_event env c) (takeWhile (no_match s) (tweets_of data))
              \<and> nfetch w2 = nfetch w1
              \<and> ingest_loop env cfg c (JStr s) page cursor nls w =
                  (if (\<exists>t\<in>set (tweets_of data). \<not> no_match s t) \<or> no_next_page data
                   then (Inr (captured page (tweets_of data) nls), w2)
                   else ingest_loop env cfg c (JStr s) (page + 1) (d_next_cursor data)
                          (captured page (tweets_of data) nls) w2)"
    using ingest_loop_step [OF prev, of page cfg env c cursor w data w1 nls] by blast
next
  let ?c = "COMMUNITY_ID cfg"
  assume a: "ingestNew env cfg v = (Inr u, v')
        \<and> getState env ?c v = (Inr (Some st), v1)
        \<and> last_seen_tweet_id st = Some s"
  then have run: "ingestNew env cfg v = (Inr u, v')"
    and state: "getState env ?c v = (Inr (Some st), v1)"
    and seen: "last_seen_tweet_id st = Some s" by simp_all
  have stop: "js_or (js_of_text (last_seen_tweet_id st)) JNull = JStr s"
    using seen prev by (simp add: js_or_def)
  from run have ne: "?c \<noteq> []" by (auto simp: ingestNew_def Let_def die_def)
  obtain r2 v2 where l: "ingest_loop env cfg ?c (JStr s) 1 JNull JNull v1 = (r2, v2)"
    by (cases "ingest_loop env cfg ?c (JStr s) 1 JNull JNull v1")
  show "\<exists>n v2 evs.
               ingest_loop env cfg ?c (JStr s) 1 JNull JNull v1 = (Inr n, v2)
             \<and> trace v2 = trace v1 @ evs
             \<and> trace v' = trace v2 @
                 (if truthy n
                  then [EvQuery (UpdateLastSeenTweetId ?c (pg_text n))] else [])
             \<and> upserts evs = map (upsert_event env ?c)
                  (takeWhile (no_match s) (concat (map tweets_of (returned evs))))
             \<and> (\<forall>d\<in>set (butlast (returned evs)). \<forall>t\<in>set (tweets_of d). no_match s t)
             \<and> (1 \<le> TOP_PAGES cfg \<longrightarrow>
                  returned evs \<noteq> []
                  \<and> fst (getCommunityTweets env cfg ?c JNull v1)
                      = Inr (hd (returned evs)))
             \<and> ((\<exists>t\<in>set (concat (map tweets_of (returned evs))). \<not> no_match s t) \<longrightarrow>
                  (\<exists>a b. evs = a @ EvReturn (last (returned evs)) # b
                     \<and> list_all is_upsert b))"
  proof (cases r2)
    case (Inl e)
    with run state ne l stop show ?thesis by (simp add: ingestNew_def Let_def)
  next
    case (Inr n)
    from ingest_loop_scan [OF prev l [unfolded Inr]] obtain evs where
      e: "trace v2 = trace v1 @ evs"
         "upserts evs = map (upsert_event env ?c)
           (takeWhile (no_match s) (concat (map tweets_of (returned evs))))"
         "\<forall>d\<in>set (butlast (returned evs)). \<forall>t\<in>set (tweets_of d). no_match s t"
         "int 1 \<le> TOP_PAGES cfg \<longrightarrow>
           returned evs \<noteq> []
           \<and> fst (getCommunityTweets env cfg ?c JNull v1) = Inr (hd (returned evs))"
         "(\<exists>t\<in>set (concat (map tweets_of (returned evs))). \<not> no_match s t) \<longrightarrow>
           (\<exists>a b. evs = a @ EvReturn (last (returned evs)) # b \<and> list_all is_upsert b)"
      by blast
    have t: "trace v' = trace v2 @
                 (if truthy n
                  then [EvQuery (UpdateLastSeenTweetId ?c (pg_text n))] else [])"
    proof (cases "truthy n")
      case False
      with run state ne l Inr stop have "v' = v2" by (simp add: ingestNew_def Let_def)
      with False show ?thesis by simp
    next
      case True
      with run state ne l Inr stop have "setLastSeenTweetId env ?c n v2 = (Inr u, v')"
        by (simp add: ingestNew_def Let_def)
      then have "trace v' = trace v2 @ [EvQuery (UpdateLastSeenTweetId ?c (pg_text n))]"
        by (auto simp: setLastSeenTweetId_def dest: q_result(1))
      with True show ?thesis by simp
    qed
    from l [unfolded Inr] e t show ?thesis
      by (intro exI [of _ n] exI [of _ v2] exI [of _ evs]) simp
  qed
qed

lemma paged_state:
  "getState paged_env ''c'' caught_up_world =
     (Inr (Some \<lparr>backfill_cursor = None, last_seen_tweet_id = Some ''T97''\<rparr>),
      snd (getState paged_env ''c'' caught_up_world))"
  by (simp add: getState_def ensureStateRow_def q_def emit_def Let_def paged_env_simps
      caught_up_world_def start_world_def empty_db_def)

lemma paged_first:
  "getCommunityTweets paged_env sample_cfg ''c'' JNull (snd (getState paged_env ''c'' caught_up_world))
     = (Inr first_page,
        snd (getCommunityTweets paged_env sample_cfg ''c'' JNull
               (snd (getState paged_env ''c'' caught_up_world))))"
  by (simp add: getState_def ensureStateRow_def q_def client_defs get_loop.simps
      paged_env_simps page_simps caught_up_world_def sample_cfg_def start_world_def empty_db_def)

theorem ingestNew_stops_at_watermark_witness:
  "fst (ingestNew paged_env sample_cfg caught_up_world) = Inr ()
   \<and> nfetch (snd (ingestNew paged_env sample_cfg caught_up_world)) = 2
   \<and> trace (snd (ingestNew paged_env sample_cfg caught_up_world)) =
     [EvQuery (InsertStateRow ''c''), EvQuery (SelectState ''c''), EvPace,
      EvFetch ''/twitter/community/tweets'' [(''community_id'', ''c'')],
      EvReturn first_page,
      upsert_event paged_env ''c'' (sample_tweet ''T100'' (JNum 900)),
      upsert_event paged_env ''c'' (sample_tweet ''T99'' (JNum 890)),
      EvPace, EvSleep 5200,
      EvFetch ''/twitter/community/tweets'' [(''community_id'', ''c''), (''cursor'', ''c1'')],
      EvReturn second_page,
      upsert_event paged_env ''c'' (sample_tweet ''T98'' (JNum 880)),
      EvQuery (UpdateLastSeenTweetId ''c'' (Some ''T100''))]
   \<and> (\<exists>w2. trace w2 =
          trace (snd (getCommunityTweets paged_env sample_cfg ''c'' JNull
                        (snd (getState paged_env ''c'' caught_up_world))))
          @ [upsert_event paged_env ''c'' (sample_tweet ''T100'' (JNum 900)),
             upsert_event paged_env ''c'' (sample_tweet ''T99'' (JNum 890))]
        \<and> ingest_loop paged_env sample_cfg ''c'' (JStr ''T97'') 1 JNull JNull
            (snd (getState paged_env ''c'' caught_up_world))
          = ingest_loop paged_env sample_cfg ''c'' (JStr ''T97'') 2 (JStr ''c1'') (JStr ''T100'') w2)
   \<and> (\<exists>evs. returned evs = [first_page, second_page]
        \<and> upserts evs = map (upsert_event paged_env ''c'')
            [sample_tweet ''T100'' (JNum 900), sample_tweet ''T99'' (JNum 890),
             sample_tweet ''T98'' (JNum 880)])"
proof -
  let ?v1 = "snd (getState paged_env ''c'' caught_up_world)"
  let ?w1 = "snd (getCommunityTweets paged_env sample_cfg ''c'' JNull ?v1)"
  have c: "COMMUNITY_ID sample_cfg = ''c''" by (simp add: sample_cfg_def)
  have ne: "''T97'' \<noteq> []" by simp
  note inst = ingestNew_stops_at_watermark [OF ne, where env = paged_env and cfg = sample_cfg]
  have run: "ingestNew paged_env sample_cfg caught_up_world
     = (Inr (), snd (ingestNew paged_env sample_cfg caught_up_world))"
    using paged_run by (metis prod.collapse)
  have nm: "takeWhile (no_match ''T97'') (tweets_of first_page) = tweets_of first_page"
    "\<not> (\<exists>t\<in>set (tweets_of first_page). \<not> no_match ''T97'' t)"
    by (simp_all add: page_simps no_match_def sample_id)
  have h1: "int 1 \<le> TOP_PAGES sample_cfg
        \<and> getCommunityTweets paged_env sample_cfg ''c'' JNull ?v1 = (Inr first_page, ?w1)
        \<and> (\<forall>i<length (takeWhile (no_match ''T97'') (tweets_of first_page)).
              db_error paged_env (nquery ?w1 + i) = None)"
    using paged_first by (simp add: sample_cfg_def paged_env_simps)
  have nn: "\<not> no_next_page first_page" by (simp add: no_next_page_def page_simps)
  have cp: "captured 1 (tweets_of first_page) JNull = JStr ''T100''"
    by (simp add: captured_def page_simps first_id_def sample_id)
  from inst [THEN conjunct1, THEN mp, OF h1, of JNull]
  obtain w2 where
    raw: "trace w2 = trace ?w1
            @ map (upsert_event paged_env ''c'') (takeWhile (no_match ''T97'') (tweets_of first_page))"
         "ingest_loop paged_env sample_cfg ''c'' (JStr ''T97'') 1 JNull JNull ?v1 =
            (if (\<exists>t\<in>set (tweets_of first_page). \<not> no_match ''T97'' t) \<or> no_next_page first_page
             then (Inr (captured 1 (tweets_of first_page) JNull), w2)
             else ingest_loop paged_env sample_cfg ''c'' (JStr ''T97'') (1 + 1)
                    (d_next_cursor first_page) (captured 1 (tweets_of first_page) JNull) w2)"
    by blast
  have "trace w2 = trace ?w1
          @ [upsert_event paged_env ''c'' (sample_tweet ''T100'' (JNum 900)),
             upsert_event paged_env ''c'' (sample_tweet ''T99'' (JNum 890))]"
    using raw(1) unfolding nm(1) by (simp add: page_simps)
  moreover have "ingest_loop paged_env sample_cfg ''c'' (JStr ''T97'') 1 JNull JNull ?v1
          = ingest_loop paged_env sample_cfg ''c'' (JStr ''T97'') 2 (JStr ''c1'') (JStr ''T100'') w2"
    using raw(2) nm(2) nn unfolding cp by (simp add: page_simps numeral_2_eq_2)
  ultimately have step: "\<exists>w2. trace w2 = trace ?w1
          @ [upsert_event paged_env ''c'' (sample_tweet ''T100'' (JNum 900)),
             upsert_event paged_env ''c'' (sample_tweet ''T99'' (JNum 890))]
        \<and> ingest_loop paged_env sample_cfg ''c'' (JStr ''T97'') 1 JNull JNull ?v1
          = ingest_loop paged_env sample_cfg ''c'' (JStr ''T97'') 2 (JStr ''c1'') (JStr ''T100'') w2"
    by blast
  have h2: "ingestNew paged_env sample_cfg caught_up_world
          = (Inr (), snd (ingestNew paged_env sample_cfg caught_up_world))
        \<and> getState paged_env (COMMUNITY_ID sample_cfg) caught_up_world
          = (Inr (Some \<lparr>backfill_cursor = None, last_seen_tweet_id = Some ''T97''\<rparr>), ?v1)
        \<and> last_seen_tweet_id \<lparr>backfill_cursor = None, last_seen_tweet_id = Some ''T97''\<rparr>
          = Some ''T97''"
    using run paged_state by (simp add: c)
  have v1: "trace ?v1 = [EvQuery (InsertStateRow ''c''), EvQuery (SelectState ''c'')]"
    by (simp add: getState_def ensureStateRow_def q_def emit_def Let_def paged_env_simps
      caught_up_world_def start_world_def empty_db_def)
  have full: "returned (trace (snd (ingestNew paged_env sample_cfg caught_up_world)))
      = [first_page, second_page]"
    by (simp add: paged_run returned_def upsert_event_def)
  from inst [THEN conjunct2, THEN mp, OF h2]
  have scan: "\<exists>evs. returned evs = [first_page, second_page]
        \<and> upserts evs = map (upsert_event paged_env ''c'')
            [sample_tweet ''T100'' (JNum 900), sample_tweet ''T99'' (JNum 890),
             sample_tweet ''T98'' (JNum 880)]"
    unfolding c
  proof (elim exE conjE, goal_cases)
    case (1 n v2 evs)
    have "returned (trace (snd (ingestNew paged_env sample_cfg caught_up_world)))
        = returned evs"
      unfolding "1"(3) "1"(2) v1 by (simp add: returned_append) (simp add: returned_def)
    with full have re: "returned evs = [first_page, second_page]" by simp
    have "upserts evs = map (upsert_event paged_env ''c'')
              [sample_tweet ''T100'' (JNum 900), sample_tweet ''T99'' (JNum 890),
               sample_tweet ''T98'' (JNum 880)]"
      unfolding "1"(4) re by (simp add: page_simps no_match_def sample_id)
    with re show ?case by blast
  qed
  from paged_run step scan show ?thesis by simp
qed

section \<open>Backfill: the cursor moves after its page\<close>

lemma disciplined_append:
  "disciplined A env c pend (xs @ ys) =
     (disciplined A env c pend xs \<and> disciplined A env c (foldl (pending_step env c) pend xs) ys)"
  by (induction xs arbitrary: pend) auto

lemma disciplined_quiet:
  "list_all (\<lambda>e. \<not> cursor_update e) xs \<Longrightarrow> disciplined A env c pend xs"
  by (induction xs arbitrary: pend) (auto simp: cursor_update_def split: event.splits sql.splits)

lemma client_not_cursor: "list_all client_event xs \<Longrightarrow> list_all (\<lambda>e. \<not> cursor_update e) xs"
  by (induction xs) (auto simp: client_event_def cursor_update_def split: event.splits)

lemma client_pending: "list_all client_event xs \<Longrightarrow> foldl (pending_step env c) pend xs = pend"
  by (induction xs arbitrary: pend)
     (auto simp: client_event_def pending_step_def upsert_event_def split: event.splits list.splits)

lemma get_discipline:
  assumes "get_events r evs"
  shows "disciplined A env c pend evs"
    and "foldl (pending_step env c) pend evs = (case r of Inr d \<Rightarrow> tweets_of d | Inl e \<Rightarrow> pend)"
proof -
  show "disciplined A env c pend evs"
  proof (cases r)
    case (Inr d)
    with assms obtain pre where "evs = pre @ [EvReturn d]" "list_all client_event pre"
      by (auto simp: get_events_def)
    then show ?thesis
      by (simp add: disciplined_append disciplined_quiet client_not_cursor)
  next
    case (Inl e)
    show ?thesis
    proof (cases e)
      case (Thrown m)
      with Inl assms obtain pre where "evs = pre @ [EvThrow m]" "list_all client_event pre"
        by (auto simp: get_events_def)
      then show ?thesis
        by (simp add: disciplined_append disciplined_quiet client_not_cursor)
    next
      case (Exit m)
      with Inl assms show ?thesis by (simp add: get_events_def)
    qed
  qed
  show "foldl (pending_step env c) pend evs = (case r of Inr d \<Rightarrow> tweets_of d | Inl e \<Rightarrow> pend)"
  proof (cases r)
    case (Inr d)
    with assms obtain pre where "evs = pre @ [EvReturn d]" "list_all client_event pre"
      by (auto simp: get_events_def)
    with Inr show ?thesis by (simp add: client_pending pending_step_def)
  next
    case (Inl e)
    show ?thesis
    proof (cases e)
      case (Thrown m)
      with Inl assms obtain pre where "evs = pre @ [EvThrow m]" "list_all client_event pre"
        by (auto simp: get_events_def)
      with Inl show ?thesis
        by (simp add: client_pending pending_step_def upsert_event_def split: list.splits)
    next
      case (Exit m)
      with Inl assms show ?thesis by (simp add: get_events_def)
    qed
  qed
qed

lemma q_event:
  assumes "q env stmt w = (r, w')"
  shows "(r = Inr () \<and> trace w' = trace w @ [EvQuery stmt])
       \<or> (\<exists>m. r = Inl (Thrown m) \<and> trace w' = trace w @ [EvRejected stmt m])"
  using assms by (auto simp: q_def Let_def emit_def split: option.splits)

lemma backfill_page_discipline:
  "backfill_page env c cutoffTs tweets w = (r, w') \<Longrightarrow>
   \<exists>evs. trace w' = trace w @ evs
     \<and> list_all (\<lambda>e. \<not> cursor_update e) evs
     \<and> (case r of
          Inr reached \<Rightarrow>
            if reached
            then foldl (pending_step env c) tweets evs \<noteq> []
               \<and> past_cutoff cutoffTs (normalizeTweet env (hd (foldl (pending_step env c) tweets evs)))
            else foldl (pending_step env c) tweets evs = []
        | Inl e \<Rightarrow> True)"
proof (induction tweets arbitrary: w)
  case Nil
  then show ?case by (intro exI [of _ "[]"]) auto
next
  case (Cons t ts)
  show ?case
  proof (cases "past_cutoff cutoffTs (normalizeTweet env t)")
    case True
    with Cons.prems show ?thesis by (intro exI [of _ "[]"]) (auto simp: Let_def)
  next
    case False
    obtain r1 w1 where u: "upsertCommunityTweet env c (normalizeTweet env t) w = (r1, w1)"
      by (cases "upsertCommunityTweet env c (normalizeTweet env t) w")
    from q_event [OF u [unfolded upsertCommunityTweet_def]]
    consider (ok) "r1 = Inr ()" "trace w1 = trace w @ [upsert_event env c t]"
      | (rejected) m where "r1 = Inl (Thrown m)"
          "trace w1 = trace w @ [EvRejected (UpsertCommunityTweet c (tw_tweet_id (normalizeTweet env t))
              (tweet_params (normalizeTweet env t))) m]"
      by (auto simp: upsert_event_def)
    then show ?thesis
    proof cases
      case ok
      with Cons.prems False u have "backfill_page env c cutoffTs ts w1 = (r, w')"
        by (simp add: Let_def)
      from Cons.IH [OF this] obtain evs where
        e: "trace w' = trace w1 @ evs" "list_all (\<lambda>e. \<not> cursor_update e) evs"
           "case r of
              Inr reached \<Rightarrow>
                if reached
                then foldl (pending_step env c) ts evs \<noteq> []
                   \<and> past_cutoff cutoffTs (normalizeTweet env (hd (foldl (pending_step env c) ts evs)))
                else foldl (pending_step env c) ts evs = []
            | Inl e \<Rightarrow> True"
        by blast
      have s: "pending_step env c (t # ts) (upsert_event env c t) = ts"
        by (simp add: pending_step_def upsert_event_def)
      have nc: "\<not> cursor_update (upsert_event env c t)"
        by (simp add: cursor_update_def upsert_event_def)
      show ?thesis
        using e ok(2) s nc
        by (intro exI [of _ "upsert_event env c t # evs"]) (auto split: sum.splits if_splits)
    next
      case rejected
      with Cons.prems False u have "r = Inl (Thrown m)" "w' = w1" by (simp_all add: Let_def)
      with rejected(2) show ?thesis
        by (intro exI [of _ "[EvRejected (UpsertCommunityTweet c (tw_tweet_id (normalizeTweet env t))
              (tweet_params (normalizeTweet env t))) m]"])
           (simp add: cursor_update_def)
    qed
  qed
qed

lemma backfill_loop_budget:
  "\<not> int page \<le> BACKFILL_PAGES_PER_RUN cfg \<Longrightarrow>
   backfill_loop env cfg c cutoffTs page cursor w = (Inr (), w)"
  by (subst backfill_loop.simps) simp

lemma backfill_loop_page:
  assumes "int page \<le> BACKFILL_PAGES_PER_RUN cfg"
    and "getCommunityTweets env cfg c cursor w = (Inr data, w1)"
    and "backfill_page env c cutoffTs (tweets_of data) w1 = (Inr reached, w2)"
  shows "backfill_loop env cfg c cutoffTs page cursor w =
    (if reached \<or> no_next_page data then setBackfillCursor env c JNull w2
     else case setBackfillCursor env c (d_next_cursor data) w2 of
            (Inl e, w3) \<Rightarrow> (Inl e, w3)
          | (Inr u, w3) \<Rightarrow>
              backfill_loop env cfg c cutoffTs (page + 1) (d_next_cursor data) w3)"
  by (subst backfill_loop.simps) (simp add: assms)

lemma cursor_event:
  assumes "setBackfillCursor env c cur w = (r, w')"
  shows "\<exists>e. trace w' = trace w @ [e]
     \<and> (e = EvQuery (UpdateBackfillCursor c (pg_text cur)) \<or> \<not> cursor_update e)"
  using q_event [OF assms [unfolded setBackfillCursor_def]]
  by (auto simp: cursor_update_def)

lemma backfill_loop_discipline:
  "backfill_loop env cfg c cutoffTs page cursor w = (r, w') \<Longrightarrow>
   \<exists>evs. trace w' = trace w @ evs
     \<and> disciplined (after_or_cutoff env cutoffTs) env c pend evs"
proof (induction "nat (BACKFILL_PAGES_PER_RUN cfg + 1 - int page)" arbitrary: page cursor w pend)
  case 0
  then have "\<not> int page \<le> BACKFILL_PAGES_PER_RUN cfg" by simp
  with "0.prems" have "w' = w" by (simp add: backfill_loop_budget)
  then show ?case by (intro exI [of _ "[]"]) simp
next
  case (Suc k)
  then have b: "int page \<le> BACKFILL_PAGES_PER_RUN cfg" by simp
  let ?A = "after_or_cutoff env cutoffTs"
  obtain r1 w1 where g: "getCommunityTweets env cfg c cursor w = (r1, w1)"
    by (cases "getCommunityTweets env cfg c cursor w")
  from get_trace [OF g [unfolded getCommunityTweets_def]] obtain gevs where
    ge: "trace w1 = trace w @ gevs" "get_events r1 gevs" by blast
  have gd: "disciplined ?A env c pend gevs"
    "foldl (pending_step env c) pend gevs = (case r1 of Inr d \<Rightarrow> tweets_of d | Inl e \<Rightarrow> pend)"
    using get_discipline [OF ge(2)] by blast+
  show ?case
  proof (cases r1)
    case (Inl e)
    with Suc.prems b g have "w' = w1" by (subst (asm) backfill_loop.simps) simp
    with ge(1) gd(1) show ?thesis by blast
  next
    case (Inr data)
    with gd(2) have pd: "foldl (pending_step env c) pend gevs = tweets_of data" by simp
    obtain r2 w2 where p: "backfill_page env c cutoffTs (tweets_of data) w1 = (r2, w2)"
      by (cases "backfill_page env c cutoffTs (tweets_of data) w1")
    from backfill_page_discipline [OF p] obtain pevs where
      pe: "trace w2 = trace w1 @ pevs" "list_all (\<lambda>e. \<not> cursor_update e) pevs"
          "case r2 of
             Inr reached \<Rightarrow>
               if reached
               then foldl (pending_step env c) (tweets_of data) pevs \<noteq> []
                  \<and> past_cutoff cutoffTs
                      (normalizeTweet env (hd (foldl (pending_step env c) (tweets_of data) pevs)))
               else foldl (pending_step env c) (tweets_of data) pevs = []
           | Inl e \<Rightarrow> True"
      by blast
    have d2: "disciplined ?A env c pend (gevs @ pevs)"
      using gd(1) pe(2) by (simp add: disciplined_append disciplined_quiet)
    have t2: "trace w2 = trace w @ (gevs @ pevs)" using ge(1) pe(1) by simp
    let ?rest = "foldl (pending_step env c) pend (gevs @ pevs)"
    have rest: "?rest = foldl (pending_step env c) (tweets_of data) pevs" using pd by simp
    show ?thesis
    proof (cases r2)
      case (Inl e)
      with Suc.prems b g Inr p have "w' = w2"
        by (subst (asm) backfill_loop.simps) simp
      with t2 d2 show ?thesis by blast
    next
      case reached: (Inr reached)
      note step = backfill_loop_page [OF b g [unfolded Inr] p [unfolded reached]]
      show ?thesis
      proof (cases "reached \<or> no_next_page data")
        case True
        with Suc.prems step have "setBackfillCursor env c JNull w2 = (r, w')"
          by simp
        from cursor_event [OF this] obtain e where
          ce: "trace w' = trace w2 @ [e]"
              "e = EvQuery (UpdateBackfillCursor c (pg_text JNull)) \<or> \<not> cursor_update e"
          by blast
        have "?A ?rest None"
          using pe(3) reached rest by (auto simp: after_or_cutoff_def split: if_splits)
        with ce(2) have "disciplined ?A env c ?rest [e]"
          by (auto simp: cursor_update_def split: event.splits sql.splits)
        with d2 have "disciplined ?A env c pend ((gevs @ pevs) @ [e])"
          by (simp only: disciplined_append)
        moreover have "trace w' = trace w @ ((gevs @ pevs) @ [e])" using ce(1) t2 by simp
        ultimately show ?thesis by blast
      next
        case False
        obtain r3 w3 where c3: "setBackfillCursor env c (d_next_cursor data) w2 = (r3, w3)"
          by (cases "setBackfillCursor env c (d_next_cursor data) w2")
        from cursor_event [OF c3] obtain e where
          ce: "trace w3 = trace w2 @ [e]"
              "e = EvQuery (UpdateBackfillCursor c (pg_text (d_next_cursor data))) \<or> \<not> cursor_update e"
          by blast
        from False pe(3) reached rest have "?rest = []" by simp
        then have "?A ?rest cur" for cur by (simp add: after_or_cutoff_def)
        with ce(2) have "disciplined ?A env c ?rest [e]"
          by (auto simp: cursor_update_def split: event.splits sql.splits)
        with d2 have d3: "disciplined ?A env c pend ((gevs @ pevs) @ [e])"
          by (simp only: disciplined_append)
        have t3: "trace w3 = trace w @ ((gevs @ pevs) @ [e])" using ce(1) t2 by simp
        show ?thesis
        proof (cases r3)
          case (Inl e3)
          with Suc.prems step False c3 have "w' = w3"
            by simp
          with t3 d3 show ?thesis by blast
        next
          case (Inr u3)
          with Suc.prems step False c3
          have rec: "backfill_loop env cfg c cutoffTs (page + 1) (d_next_cursor data) w3 = (r, w')"
            by simp
          have k: "k = nat (BACKFILL_PAGES_PER_RUN cfg + 1 - int (page + 1))"
            using Suc.hyps(2) by simp
          from Suc.hyps(1) [OF k rec, of "foldl (pending_step env c) pend ((gevs @ pevs) @ [e])"]
          obtain evs where
            e4: "trace w' = trace w3 @ evs"
                "disciplined ?A env c (foldl (pending_step env c) pend ((gevs @ pevs) @ [e])) evs"
            by blast
          have "disciplined ?A env c pend (((gevs @ pevs) @ [e]) @ evs)"
            using d3 e4(2) by (simp only: disciplined_append)
          moreover have "trace w' = trace w @ (((gevs @ pevs) @ [e]) @ evs)"
            using e4(1) t3 by simp
          ultimately show ?thesis by blast
        qed
      qed
    qed
  qed
qed

text \<open>
  Claim C1, as amended. In every run of \<^verbatim>\<open>backfill\<close>, whatever its outcome, an accepted
  cursor update happens only when every item of the page returned last has been upserted,
  or else it stores NULL while the first item of that page not yet upserted is past the
  cutoff. So the cursor is never advanced to a next page before all items of the page it
  follows are written; only the terminal update at the cutoff leaves items unwritten.
\<close>

theorem backfill_cursor_discipline:
  assumes "backfill env cfg w = (r, w')"
  shows "\<exists>evs. trace w' = trace w @ evs
     \<and> disciplined
         (after_or_cutoff env (cutoff_of cfg (clock (snd (getState env (COMMUNITY_ID cfg) w)))))
         env (COMMUNITY_ID cfg) [] evs"
proof (cases "COMMUNITY_ID cfg = []")
  case True
  with assms have "w' = w" by (simp add: backfill_def die_def)
  then show ?thesis by (intro exI [of _ "[]"]) simp
next
  case False
  let ?c = "COMMUNITY_ID cfg"
  let ?A = "after_or_cutoff env (cutoff_of cfg (clock (snd (getState env ?c w))))"
  obtain r0 w0 where e: "ensureStateRow env ?c w = (r0, w0)"
    by (cases "ensureStateRow env ?c w")
  from q_event [OF e [unfolded ensureStateRow_def]] obtain e0 where
    t0: "trace w0 = trace w @ [e0]" "\<not> cursor_update e0"
    by (auto simp: cursor_update_def)
  show ?thesis
  proof (cases r0)
    case (Inl x)
    with e have "getState env ?c w = (Inl x, w0)" by (simp add: getState_def)
    with assms False have "w' = w0" by (simp add: backfill_def)
    moreover have "disciplined ?A env ?c [] [e0]"
      using t0(2) by (intro disciplined_quiet) simp
    ultimately show ?thesis using t0(1) by blast
  next
    case (Inr u0)
    obtain r1 w1 where s: "q env (SelectState ?c) w0 = (r1, w1)"
      by (cases "q env (SelectState ?c) w0")
    from q_event [OF s] obtain e1 where
      t1: "trace w1 = trace w0 @ [e1]" "\<not> cursor_update e1"
      by (auto simp: cursor_update_def)
    have q2: "list_all (\<lambda>e. \<not> cursor_update e) [e0, e1]" using t0(2) t1(2) by simp
    have p2: "foldl (pending_step env ?c) [] [e0, e1] = []"
      using t0 t1 q_event [OF e [unfolded ensureStateRow_def]] q_event [OF s]
      by (auto simp: pending_step_def)
    have tr: "trace w1 = trace w @ [e0, e1]" using t0(1) t1(1) by simp
    show ?thesis
    proof (cases r1)
      case (Inl x)
      with e Inr s have "getState env ?c w = (Inl x, w1)" by (simp add: getState_def)
      with assms False have "w' = w1" by (simp add: backfill_def)
      moreover have "disciplined ?A env ?c [] [e0, e1]"
        using q2 by (rule disciplined_quiet)
      ultimately show ?thesis using tr by blast
    next
      case u1: (Inr u1)
      with e Inr s have gs: "getState env ?c w = (Inr (ingest_state (store w1) ?c), w1)"
        by (simp add: getState_def)
      show ?thesis
      proof (cases "ingest_state (store w1) ?c")
        case None
        with assms False gs have "w' = emit (EvThrow undefined_state) w1"
          by (simp add: backfill_def throw_def)
        then have "trace w' = trace w @ ([e0, e1] @ [EvThrow undefined_state])"
          using tr by (simp add: emit_def)
        moreover have "disciplined ?A env ?c [] ([e0, e1] @ [EvThrow undefined_state])"
          using q2 by (intro disciplined_quiet) (simp add: cursor_update_def)
        ultimately show ?thesis by blast
      next
        case (Some st)
        with assms False gs
        have "backfill_loop env cfg ?c (cutoff_of cfg (clock w1)) 1
                (js_or (js_of_text (backfill_cursor st)) JNull) w1 = (r, w')"
          by (simp add: backfill_def Let_def)
        from backfill_loop_discipline [OF this, of "foldl (pending_step env ?c) [] [e0, e1]"]
        obtain evs where
          l: "trace w' = trace w1 @ evs"
             "disciplined (after_or_cutoff env (cutoff_of cfg (clock w1))) env ?c
                (foldl (pending_step env ?c) [] [e0, e1]) evs"
          by blast
        have "clock (snd (getState env ?c w)) = clock w1" using gs by simp
        with l(2) have "disciplined ?A env ?c (foldl (pending_step env ?c) [] [e0, e1]) evs"
          by simp
        moreover have "disciplined ?A env ?c [] [e0, e1]"
          using q2 by (rule disciplined_quiet)
        ultimately have "disciplined ?A env ?c [] ([e0, e1] @ evs)"
          by (simp only: disciplined_append)
        moreover have "trace w' = trace w @ ([e0, e1] @ evs)" using l(1) tr by simp
        ultimately show ?thesis by blast
      qed
    qed
  qed
qed

theorem backfill_cursor_discipline_witness:
  "\<exists>evs. trace (snd (backfill aged_env cutoff_cfg late_world)) = trace late_world @ evs
     \<and> disciplined
         (after_or_cutoff aged_env (cutoff_of cutoff_cfg
            (clock (snd (getState aged_env (COMMUNITY_ID cutoff_cfg) late_world)))))
         aged_env (COMMUNITY_ID cutoff_cfg) [] evs"
  using backfill_cursor_discipline [of aged_env cutoff_cfg late_world
      "fst (backfill aged_env cutoff_cfg late_world)" "snd (backfill aged_env cutoff_cfg late_world)"]
  by simp

lemma sample_created:
  "n \<noteq> 0 \<Longrightarrow> tw_created_at (normalizeTweet aged_env (sample_tweet i (JNum n))) = Some n"
  by (simp add: normalizeTweet_def parseCreatedAt_def sample_defs)

lemma aged_env_simps:
  "date_time aged_env = number_dates" "http aged_env n p ps = Response 200 aged_page"
  "http_time aged_env n = 0" "fetch_delay aged_env n = 0" "timer_early aged_env n = False"
  "sleep_extra aged_env n = 0" "db_error aged_env n = None"
  "db_time aged_env n = 0"
  by (simp_all add: aged_env_def quiet_env_def)

lemma aged_page_simps:
  "d_status aged_page = JStr ''success''"
  "tweets_of aged_page = [sample_tweet ''T100'' (JNum 900), sample_tweet ''T99'' (JNum 100),
     sample_tweet ''T98'' (JNum 950)]"
  "d_has_next_page aged_page = JBool True" "d_next_cursor aged_page = JStr ''next''"
  by (simp_all add: aged_page_def page_data_def no_data_def tweets_of_def)

lemmas world_defs = cutoff_cfg_def late_world_def sample_cfg_def tracked_world_def
  start_world_def empty_db_def

lemma aged_trace:
  "trace (snd (backfill aged_env cutoff_cfg late_world)) =
     [EvQuery (InsertStateRow ''c''), EvQuery (SelectState ''c''), EvPace,
      EvFetch ''/twitter/community/tweets'' [(''community_id'', ''c''), (''cursor'', ''old'')],
      EvReturn aged_page,
      upsert_event aged_env ''c'' (sample_tweet ''T100'' (JNum 900)),
      EvQuery (UpdateBackfillCursor ''c'' None)]"
  by (simp add: backfill_def getState_def ensureStateRow_def q_def setBackfillCursor_def
      upsertCommunityTweet_def no_next_page_def js_or_def cutoff_of_def
      client_defs get_loop.simps backfill_loop.simps past_cutoff_def sample_created
      upsert_keeps_state upsert_event_def aged_env_simps aged_page_simps world_defs
      del: sql_effect.simps(6))

text \<open>
  Claim C1 as stated fails at the cutoff: with a one-day cutoff and a page whose second
  item is too old, the run upserts the first item and then stores the cursor NULL while
  two normalized items of the page are not written.
\<close>

theorem cursor_before_page_counterexample:
  "\<not> disciplined strictly_after aged_env ''c'' []
       (trace (snd (backfill aged_env cutoff_cfg late_world)))"
  by (simp add: aged_trace pending_step_def strictly_after_def upsert_event_def aged_page_simps)

section \<open>Paced client: rate limiting\<close>

lemma pace_no_wait:
  assumes "lastTs w + MIN_REQUEST_INTERVAL_MS cfg \<le> clock w"
  shows "pace env cfg w = (emit EvPace w)\<lparr>lastTs := clock w\<rparr>"
  using assms by (simp add: pace_def Let_def emit_def)

lemma pace_paced: "lastTs (pace env cfg w) = clock (pace env cfg w)"
  by (simp add: pace_def Let_def)

lemma get_loop_busy:
  assumes "lastTs w \<le> clock w" and "a + k \<le> retries"
    and "\<forall>i<k. \<exists>d. http env (nfetch w + i) path ps = Response 429 d"
  shows "\<exists>w'. get_loop env cfg path ps retries a w = get_loop env cfg path ps retries (a + k) w'
     \<and> trace w' = trace w @ concat (map (backoff_events cfg path ps) [a + 1..<a + k + 1])
     \<and> nfetch w' = nfetch w + k \<and> lastTs w' \<le> clock w'"
  using assms
proof (induction k arbitrary: a w)
  case 0
  then show ?case by (intro exI [of _ w]) simp
next
  case (Suc k)
  let ?M = "MIN_REQUEST_INTERVAL_MS cfg"
  let ?ms = "?M + int (a + 1) * 1000"
  let ?w1 = "snd (fetch env path ps w)"
  let ?w2 = "sleep env ?ms ?w1"
  let ?w3 = "pace env cfg ?w2"
  from Suc.prems(3) obtain d where d: "http env (nfetch w) path ps = Response 429 d" by force
  from Suc.prems(2) have le: "a + 1 \<le> retries" by simp
  have step: "get_loop env cfg path ps retries a w = get_loop env cfg path ps retries (a + 1) ?w3"
    using get_loop_429 [OF d le] .
  have c2: "clock ?w2 = clock w + int (fetch_delay env (nfetch w)) + int (http_time env (nfetch w))
              + max (?ms - (if timer_early env (nsleep ?w1) then 1 else 0)) 0
              + int (sleep_extra env (nsleep ?w1))"
    by (simp add: sleep_def fetch_def emit_def)
  have l2: "lastTs ?w2 = lastTs w" by (simp add: sleep_def fetch_def emit_def)
  have "?M \<le> max (?ms - (if timer_early env (nsleep ?w1) then 1 else 0)) 0"
    by (auto simp: max_def)
  then have "lastTs ?w2 + ?M \<le> clock ?w2"
    using c2 l2 Suc.prems(1) by linarith
  from pace_no_wait [OF this, of env] have p3: "?w3 = (emit EvPace ?w2)\<lparr>lastTs := clock ?w2\<rparr>" .
  have t3: "trace ?w3 = trace w @ backoff_events cfg path ps (a + 1)"
    by (subst p3) (simp add: emit_def sleep_def fetch_def backoff_events_def)
  have n3: "nfetch ?w3 = nfetch w + 1" by (subst p3) (simp add: emit_def sleep_def fetch_def)
  have i3: "lastTs ?w3 \<le> clock ?w3" by (subst p3, subst p3) (simp add: emit_def)
  have b3: "\<forall>i<k. \<exists>d. http env (nfetch ?w3 + i) path ps = Response 429 d"
  proof (intro allI impI)
    fix i assume "i < k"
    then have "Suc i < Suc k" by simp
    with Suc.prems(3) have "\<exists>d. http env (nfetch w + Suc i) path ps = Response 429 d" by blast
    then show "\<exists>d. http env (nfetch ?w3 + i) path ps = Response 429 d" using n3 by simp
  qed
  have "a + 1 + k \<le> retries" using Suc.prems(2) by simp
  from Suc.IH [OF i3 this b3] obtain w' where
    r: "get_loop env cfg path ps retries (a + 1) ?w3 = get_loop env cfg path ps retries (a + 1 + k) w'"
       "trace w' = trace ?w3 @ concat (map (backoff_events cfg path ps) [a + 1 + 1..<a + 1 + k + 1])"
       "nfetch w' = nfetch ?w3 + k" "lastTs w' \<le> clock w'"
    by blast
  have "[a + 1..<a + Suc k + 1] = (a + 1) # [a + 1 + 1..<a + 1 + k + 1]"
    by (simp add: upt_conv_Cons)
  then have "trace w' = trace w @ concat (map (backoff_events cfg path ps) [a + 1..<a + Suc k + 1])"
    using r(2) t3 by simp
  with step r(1,3,4) n3 show ?case
    by (intro exI [of _ w']) simp
qed

lemma get_after_retries:
  assumes key: "API_KEY cfg \<noteq> []"
    and bound: "k \<le> retries"
    and busy: "\<forall>i<k. \<exists>d. http env (nfetch w + i) path (query_params params) = Response 429 d"
    and final: "http env (nfetch w + k) path (query_params params) = Response status data"
    and last: "status = 429 \<longrightarrow> k = retries"
  shows "fst (get env cfg path params retries w) = respond cfg path status data
     \<and> trace (snd (get env cfg path params retries w)) =
          trace (pace env cfg w)
          @ concat (map (backoff_events cfg path (query_params params)) [1..<k + 1])
          @ [EvFetch path (query_params params), outcome_event (respond cfg path status data)]"
proof -
  let ?ps = "query_params params"
  let ?w0 = "pace env cfg w"
  have n0: "nfetch ?w0 = nfetch w" by (simp add: pace_def sleep_def emit_def Let_def)
  have i0: "lastTs ?w0 \<le> clock ?w0" by (simp add: pace_paced)
  have b0: "\<forall>i<k. \<exists>d. http env (nfetch ?w0 + i) path ?ps = Response 429 d"
    using busy n0 by simp
  have "0 + k \<le> retries" using bound by simp
  from get_loop_busy [OF i0 this b0, of cfg] obtain w' where
    r: "get_loop env cfg path ?ps retries 0 ?w0 = get_loop env cfg path ?ps retries (0 + k) w'"
       "trace w' = trace ?w0 @ concat (map (backoff_events cfg path ?ps) [0 + 1..<0 + k + 1])"
       "nfetch w' = nfetch ?w0 + k"
    by blast
  have f: "http env (nfetch w') path ?ps = Response status data"
    using final r(3) n0 by simp
  have "\<not> (status = 429 \<and> k + 1 \<le> retries)" using last by auto
  note e = get_loop_final [OF f this, of cfg]
  have g: "get env cfg path params retries w = get_loop env cfg path ?ps retries k w'"
    using key r(1) by (simp add: get_def)
  show ?thesis
    using r(2)
    by (simp add: g e throw_def emit_def fetch_def respond_def http_failure_def outcome_event_def)
qed

text \<open>
  Claim C5, as amended. Let the first \<open>k\<close> responses to a call of \<^verbatim>\<open>get\<close> be 429, with \<open>k\<close> at
  most the retry bound, and let the next response either not be a 429 or come when the
  bound is used up. Then \<^verbatim>\<open>get\<close> makes \<open>k + 1\<close> requests; after the \<open>i\<close>-th 429 it sleeps the
  minimum interval plus \<open>i\<close> seconds and passes the pacing gate before it retries; and it
  ends as \<open>respond\<close> says for the last response. For a 429 past the bound that is the error
  of every status that is not a success, a plain \<^verbatim>\<open>Error\<close> whose message is the body's
  message or \<^verbatim>\<open>HTTP 429\<close>, followed by the path: the code has no separate rate-limit error.
\<close>

theorem get_backoff_schedule:
  assumes "API_KEY cfg \<noteq> []"
    and "k \<le> retries"
    and "\<forall>i<k. \<exists>d. http env (nfetch w + i) path (query_params params) = Response 429 d"
    and "http env (nfetch w + k) path (query_params params) = Response status data"
    and "status = 429 \<longrightarrow> k = retries"
  shows "fst (get env cfg path params retries w) = respond cfg path status data
     \<and> trace (snd (get env cfg path params retries w)) =
          trace (pace env cfg w)
          @ concat (map (backoff_events cfg path (query_params params)) [1..<k + 1])
          @ [EvFetch path (query_params params), outcome_event (respond cfg path status data)]
     \<and> respond cfg path 429 data = Inl (Thrown (http_failure cfg path 429 data))"
  using get_after_retries [OF assms] by (simp add: respond_def ok_def)

lemma limit_failure:
  "http_failure sample_cfg ''/twitter/user/info'' status limit_body
     = ''Too Many Requests @ /twitter/user/info''"
  by (simp add: http_failure_def limit_body_def js_or_def pathname_def sample_cfg_def)

lemma sample_key: "API_KEY sample_cfg \<noteq> []"
  by (simp add: sample_cfg_def)

theorem get_backoff_schedule_witness:
  "fst (get busy_env sample_cfg ''/twitter/user/info'' [] 6 start_world)
     = Inl (Thrown ''Too Many Requests @ /twitter/user/info'')
   \<and> trace (snd (get busy_env sample_cfg ''/twitter/user/info'' [] 6 start_world)) =
       trace (pace busy_env sample_cfg start_world)
       @ concat (map (backoff_events sample_cfg ''/twitter/user/info'' []) [1..<7])
       @ [EvFetch ''/twitter/user/info'' [], EvThrow ''Too Many Requests @ /twitter/user/info'']"
proof -
  have b: "\<forall>i<6. \<exists>d. http busy_env (nfetch start_world + i) ''/twitter/user/info''
             (query_params []) = Response 429 d"
    by (simp add: busy_env_def)
  have f: "http busy_env (nfetch start_world + 6) ''/twitter/user/info'' (query_params [])
             = Response 429 limit_body"
    by (simp add: busy_env_def)
  from get_backoff_schedule [OF sample_key _ b f]
  show ?thesis
    by (simp add: respond_def ok_def outcome_event_def limit_failure query_params_def)
qed

text \<open>
  Claim C5 as stated fails in its last part: when the retries are used up by 429 responses
  the caller receives the very error it receives for a status 500 with the same body.
\<close>

theorem rate_limited_counterexample:
  "fst (get busy_env sample_cfg ''/twitter/user/info'' [] 6 start_world)
     = Inl (Thrown ''Too Many Requests @ /twitter/user/info'')
   \<and> fst (get down_env sample_cfg ''/twitter/user/info'' [] 6 start_world)
     = Inl (Thrown ''Too Many Requests @ /twitter/user/info'')"
proof -
  have b: "\<forall>i<6. \<exists>d. http busy_env (nfetch start_world + i) ''/twitter/user/info''
             (query_params []) = Response 429 d"
    by (simp add: busy_env_def)
  have f: "http busy_env (nfetch start_world + 6) ''/twitter/user/info'' (query_params [])
             = Response 429 limit_body"
    by (simp add: busy_env_def)
  have b': "\<forall>i<0. \<exists>d. http down_env (nfetch start_world + i) ''/twitter/user/info''
             (query_params []) = Response 429 d"
    by simp
  have f': "http down_env (nfetch start_world + 0) ''/twitter/user/info'' (query_params [])
             = Response 500 limit_body"
    by (simp add: down_env_def)
  from get_after_retries [OF sample_key _ b f] get_after_retries [OF sample_key _ b' f']
  show ?thesis
    by (simp add: respond_def ok_def limit_failure)
qed


section \<open>Paced client: the minimum interval\<close>

lemma spaced_snoc:
  "spaced m xs \<Longrightarrow> (xs \<noteq> [] \<longrightarrow> last xs + m \<le> s) \<Longrightarrow> spaced m (xs @ [s])"
  by (induction m xs rule: spaced.induct) auto

lemma spaced_span:
  "spaced m xs \<Longrightarrow> xs \<noteq> [] \<Longrightarrow> hd xs + (int (length xs) - 1) * m \<le> last xs"
  by (induction m xs rule: spaced.induct) (auto simp: algebra_simps)

lemma pace_gap:
  assumes "punctual env"
  shows "lastTs w + MIN_REQUEST_INTERVAL_MS cfg \<le> clock (pace env cfg w)"
  using assms by (simp add: punctual_def pace_def Let_def sleep_def emit_def)

lemma pace_starts: "fetch_starts (pace env cfg w) = fetch_starts w"
  by (simp add: pace_def Let_def sleep_def emit_def)

lemma pace_ready:
  assumes "punctual env" and "kept (MIN_REQUEST_INTERVAL_MS cfg) old w starts"
  shows "ready (MIN_REQUEST_INTERVAL_MS cfg) old (pace env cfg w) starts"
  using assms(2) pace_gap [OF assms(1), of w cfg]
  by (auto simp: kept_def ready_def pace_starts pace_paced)

lemma fetch_kept:
  assumes "punctual env" and "ready m old w starts"
  shows "kept m old (snd (fetch env path ps w)) (starts @ [clock w])"
  using assms by (auto simp: punctual_def kept_def ready_def fetch_def emit_def spaced_snoc)

lemma sleep_kept: "kept m old w starts \<Longrightarrow> kept m old (sleep env ms w) starts"
  by (simp add: kept_def sleep_def emit_def)

lemma emit_kept: "kept m old w starts \<Longrightarrow> kept m old (emit e w) starts"
  by (simp add: kept_def emit_def)

lemma get_loop_kept:
  "punctual env \<Longrightarrow> ready (MIN_REQUEST_INTERVAL_MS cfg) old w starts \<Longrightarrow>
   get_loop env cfg path ps retries a w = (r, w') \<Longrightarrow>
   \<exists>more. kept (MIN_REQUEST_INTERVAL_MS cfg) old w' (starts @ more)
     \<and> length more = nfetch w' - nfetch w \<and> nfetch w < nfetch w'
     \<and> ((\<forall>d. http env (nfetch w) path ps \<noteq> Response 429 d) \<longrightarrow> nfetch w' = nfetch w + 1)"
proof (induction env cfg path ps retries a w arbitrary: starts rule: get_loop.induct)
  case (1 env cfg path ps retries attempt0 w)
  note punct = "1.prems"(1) and rdy = "1.prems"(2) and run = "1.prems"(3)
  let ?m = "MIN_REQUEST_INTERVAL_MS cfg"
  let ?w1 = "snd (fetch env path ps w)"
  have k1: "kept ?m old ?w1 (starts @ [clock w])" using punct rdy by (rule fetch_kept)
  have n1: "nfetch ?w1 = nfetch w + 1" by (simp add: fetch_def emit_def)
  show ?case
  proof (cases "http env (nfetch w) path ps")
    case (NetworkError msg)
    with run have "w' = emit (EvThrow msg) ?w1"
      by (auto simp: get_loop_network throw_def)
    with k1 n1 show ?thesis
      by (intro exI [of _ "[clock w]"]) (simp add: emit_kept, simp add: emit_def)
  next
    case (Response status data)
    show ?thesis
    proof (cases "status = 429 \<and> attempt0 + 1 \<le> retries")
      case True
      let ?ms = "?m + int (attempt0 + 1) * 1000"
      let ?w2 = "pace env cfg (sleep env ?ms ?w1)"
      have f: "fetch env path ps w = (Response status data, ?w1)"
        using Response by (simp add: fetch_def)
      from run True Response have g: "get_loop env cfg path ps retries (attempt0 + 1) ?w2 = (r, w')"
        by (simp add: get_loop_429)
      have r2: "ready ?m old ?w2 (starts @ [clock w])"
        using k1 by (intro pace_ready [OF punct] sleep_kept)
      from "1.IH" [OF refl f [symmetric] refl True refl punct r2 g] obtain more where
        m: "kept ?m old w' ((starts @ [clock w]) @ more)"
           "length more = nfetch w' - nfetch ?w2" "nfetch ?w2 < nfetch w'"
        by blast
      have n2: "nfetch ?w2 = nfetch w + 1"
        by (simp add: pace_def Let_def sleep_def emit_def fetch_def)
      have "kept ?m old w' (starts @ (clock w # more))" using m(1) by simp
      moreover have "length (clock w # more) = nfetch w' - nfetch w" using m(2,3) n2 by simp
      moreover have "nfetch w < nfetch w'" using m(3) n2 by simp
      moreover have "\<not> (\<forall>d. http env (nfetch w) path ps \<noteq> Response 429 d)"
        using True Response by simp
      ultimately show ?thesis by blast
    next
      case False
      with run Response
      have "w' = emit (EvThrow (http_failure cfg path status data)) ?w1
          \<or> w' = emit (EvThrow (js_String (js_or (d_msg data) (JStr ''API status error''))
                     @ '' @ '' @ pathname cfg path)) ?w1
          \<or> w' = emit (EvReturn data) ?w1"
        by (auto simp: get_loop_final throw_def http_failure_def split: if_splits)
      then have "kept ?m old w' (starts @ [clock w])" "nfetch w' = nfetch w + 1"
        using k1 n1 by (auto simp: emit_kept) (auto simp: emit_def)
      then show ?thesis by (intro exI [of _ "[clock w]"]) simp
    qed
  qed
qed

lemma get_kept:
  assumes "punctual env"
    and "kept (MIN_REQUEST_INTERVAL_MS cfg) old w starts"
    and "get env cfg path params retries w = (r, w')"
  shows "\<exists>more. kept (MIN_REQUEST_INTERVAL_MS cfg) old w' (starts @ more)
     \<and> length more = nfetch w' - nfetch w \<and> nfetch w \<le> nfetch w'
     \<and> (API_KEY cfg \<noteq> [] \<and> (\<forall>d. http env (nfetch w) path (query_params params) \<noteq> Response 429 d)
          \<longrightarrow> nfetch w' = nfetch w + 1)"
proof (cases "API_KEY cfg = []")
  case True
  with assms show ?thesis by (intro exI [of _ "[]"]) (auto simp: get_def die_def)
next
  case False
  let ?w0 = "pace env cfg w"
  have n0: "nfetch ?w0 = nfetch w" by (simp add: pace_def sleep_def emit_def Let_def)
  from False assms(3) have g: "get_loop env cfg path (query_params params) retries 0 ?w0 = (r, w')"
    by (simp add: get_def)
  from get_loop_kept [OF assms(1) pace_ready [OF assms(1,2)] g] n0 show ?thesis by auto
qed

lemma unthrottled_Cons:
  "unthrottled env n ((path, params) # reqs) =
     ((\<forall>d. http env n path (query_params params) \<noteq> Response 429 d)
      \<and> unthrottled env (n + 1) reqs)"
proof -
  have "(\<forall>i<Suc (length reqs). P i) = (P 0 \<and> (\<forall>i<length reqs. P (Suc i)))" for P
    by (metis less_Suc_eq_0_disj)
  then show ?thesis by (simp add: unthrottled_def)
qed

lemma calls_kept:
  assumes "punctual env"
  shows "kept (MIN_REQUEST_INTERVAL_MS cfg) old w starts \<Longrightarrow> calls env cfg reqs w = (rs, w') \<Longrightarrow>
   \<exists>more. kept (MIN_REQUEST_INTERVAL_MS cfg) old w' (starts @ more)
     \<and> (API_KEY cfg \<noteq> [] \<and> unthrottled env (nfetch w) reqs
          \<longrightarrow> length more = length reqs \<and> nfetch w' = nfetch w + length reqs)"
proof (induction reqs arbitrary: w starts rs)
  case Nil
  then show ?case by (intro exI [of _ "[]"]) simp
next
  case (Cons req reqs)
  obtain path params where req: "req = (path, params)" by (cases req)
  obtain r w1 where g: "get env cfg path params 6 w = (r, w1)"
    by (cases "get env cfg path params 6 w")
  from Cons.prems(2) req g obtain rs1 where c: "calls env cfg reqs w1 = (rs1, w')"
    by (auto split: prod.splits)
  let ?m = "MIN_REQUEST_INTERVAL_MS cfg"
  from get_kept [OF assms Cons.prems(1) g] obtain m1 where
    m1: "kept ?m old w1 (starts @ m1)" "length m1 = nfetch w1 - nfetch w"
        "API_KEY cfg \<noteq> [] \<and> (\<forall>d. http env (nfetch w) path (query_params params) \<noteq> Response 429 d)
          \<longrightarrow> nfetch w1 = nfetch w + 1"
    by blast
  from Cons.IH [OF m1(1) c] obtain m2 where
    m2: "kept ?m old w' ((starts @ m1) @ m2)"
        "API_KEY cfg \<noteq> [] \<and> unthrottled env (nfetch w1) reqs
          \<longrightarrow> length m2 = length reqs \<and> nfetch w' = nfetch w1 + length reqs"
    by blast
  have "kept ?m old w' (starts @ (m1 @ m2))" using m2(1) by simp
  moreover have "API_KEY cfg \<noteq> [] \<and> unthrottled env (nfetch w) (req # reqs)
          \<longrightarrow> length (m1 @ m2) = length (req # reqs) \<and> nfetch w' = nfetch w + length (req # reqs)"
    using m1(2,3) m2(2) by (auto simp: req unthrottled_Cons)
  ultimately show ?case by blast
qed

text \<open>
  Claim C6, as amended. The gate of the paced client asks the timer for what is left of
  the minimum interval since the previous passage. Let the environment be punctual: no
  timer ends early on the clock that \<^verbatim>\<open>Date.now()\<close> reads, and every request starts at the
  instant its gate was passed. Then for every sequence of calls through the one client, to
  whatever endpoints, consecutive request starts are at least the minimum interval apart,
  so the last start is at least (number of requests - 1) intervals after the first; and
  when the API key is set and no response is a 429 (in particular when all \<open>N\<close> calls
  succeed without a retry) there are exactly \<open>N\<close> requests.
\<close>

theorem calls_are_spaced:
  assumes "punctual env"
    and "calls env cfg reqs w = (rs, w')"
  shows "\<exists>starts. fetch_starts w' = fetch_starts w @ starts
     \<and> spaced (MIN_REQUEST_INTERVAL_MS cfg) starts
     \<and> (starts \<noteq> [] \<longrightarrow>
          hd starts + (int (length starts) - 1) * MIN_REQUEST_INTERVAL_MS cfg \<le> last starts)
     \<and> (API_KEY cfg \<noteq> [] \<and> unthrottled env (nfetch w) reqs \<longrightarrow> length starts = length reqs)"
proof -
  have "kept (MIN_REQUEST_INTERVAL_MS cfg) (fetch_starts w) w []" by (simp add: kept_def)
  from calls_kept [OF assms(1) this assms(2)] obtain more where
    m: "kept (MIN_REQUEST_INTERVAL_MS cfg) (fetch_starts w) w' ([] @ more)"
       "API_KEY cfg \<noteq> [] \<and> unthrottled env (nfetch w) reqs
          \<longrightarrow> length more = length reqs \<and> nfetch w' = nfetch w + length reqs"
    by blast
  then have "fetch_starts w' = fetch_starts w @ more" "spaced (MIN_REQUEST_INTERVAL_MS cfg) more"
    by (simp_all add: kept_def)
  with m(2) spaced_span [of "MIN_REQUEST_INTERVAL_MS cfg" more] show ?thesis by blast
qed

lemma quiet_punctual: "punctual quiet_env"
  by (simp add: punctual_def quiet_env_def)

theorem calls_are_spaced_witness:
  "punctual quiet_env
   \<and> (\<exists>starts. fetch_starts (snd (calls quiet_env sample_cfg three_calls start_world)) = [] @ starts
        \<and> spaced 5200 starts \<and> length starts = 3 \<and> hd starts + 2 * 5200 \<le> last starts)"
proof -
  have u: "unthrottled quiet_env (nfetch start_world) three_calls"
    by (simp add: unthrottled_def quiet_env_def)
  have c: "calls quiet_env sample_cfg three_calls start_world
     = (fst (calls quiet_env sample_cfg three_calls start_world),
        snd (calls quiet_env sample_cfg three_calls start_world))"
    by simp
  have m: "MIN_REQUEST_INTERVAL_MS sample_cfg = 5200" by (simp add: sample_cfg_def)
  have s: "fetch_starts start_world = []" by (simp add: start_world_def)
  have l: "length three_calls = 3" by (simp add: three_calls_def)
  from calls_are_spaced [OF quiet_punctual c] u sample_key obtain starts where
    "fetch_starts (snd (calls quiet_env sample_cfg three_calls start_world)) = [] @ starts"
    "spaced 5200 starts" "length starts = 3"
    "starts \<noteq> [] \<longrightarrow> hd starts + (int (length starts) - 1) * 5200 \<le> last starts"
    unfolding m s l by blast
  moreover from this have "starts \<noteq> []" by auto
  ultimately have "\<exists>starts. fetch_starts (snd (calls quiet_env sample_cfg three_calls start_world)) = [] @ starts
        \<and> spaced 5200 starts \<and> length starts = 3 \<and> hd starts + 2 * 5200 \<le> last starts"
    by (intro exI [of _ starts]) simp
  with quiet_punctual show ?thesis by simp
qed

lemma hasty_simps:
  "http hasty_env n p ps = Response 200 no_data"
  "http_time hasty_env n = 0" "fetch_delay hasty_env n = 0" "timer_early hasty_env n = True"
  "sleep_extra hasty_env n = 0"
  by (simp_all add: hasty_env_def quiet_env_def)

text \<open>
  Claim C6 as stated fails when a timer ends early: with every response a success and a
  minimum interval of 5200 ms, the gate of the second call asks for 5200 ms, the timer
  ends after 5199 ms on the clock, and the second request starts 5199 ms after the first.
  Two successful calls take less than one interval.
\<close>

theorem early_timer_counterexample:
  "fst (calls hasty_env sample_cfg two_calls start_world) = [Inr no_data, Inr no_data]
   \<and> fetch_starts (snd (calls hasty_env sample_cfg two_calls start_world)) = [1000000, 1005199]
   \<and> \<not> spaced (MIN_REQUEST_INTERVAL_MS sample_cfg)
         (fetch_starts (snd (calls hasty_env sample_cfg two_calls start_world)))"
  by (simp add: two_calls_def get_def pace_def sleep_def fetch_def emit_def query_params_def
      ok_def throw_def die_def Let_def get_loop.simps hasty_simps no_data_def sample_cfg_def
      start_world_def)

section \<open>Which loops go on after a failure\<close>



















































end
